theory Spec2Isabelle
  imports Main "HOL-Library.AList"
begin

section \<open>Documents: JSON values as the source sees them\<close>

text \<open>
  The compiler of \<^verbatim>\<open>src/index.js\<close> works on in-memory JSON documents.  A document is a
  tree of the six JSON kinds.  An object is the list of its own enumerable properties in
  the order \<^verbatim>\<open>Object.keys\<close> reports them; a string is a list of code units below 256;
  a number is an integer (the fragment of JavaScript numbers that \<^verbatim>\<open>JSON.stringify\<close>
  prints as a plain decimal numeral).  The JavaScript value \<^verbatim>\<open>undefined\<close> is not a
  JSON value: an expression that may be undefined has type \<open>json option\<close>, with
  \<open>None\<close> for undefined.
\<close>

datatype json =
    JNull
  | JBool bool
  | JNum int
  | JStr string
  | JArr "json list"
  | JObj "(string \<times> json) list"

text \<open>
  Failures.  \<open>TypeError\<close> and \<open>SyntaxError\<close> are the exceptions the JavaScript runtime
  throws; \<open>UnresolvedReferenceError\<close> and \<open>MissingHandlerError\<close> stand for the two
  places where the source prints a report and calls \<^verbatim>\<open>process.exit(1)\<close>, and carry what
  the report lists.  \<open>CyclicReferenceError\<close> and \<open>MalformedSchemaError\<close> complete the
  error taxonomy of the specification; no function of the source constructs them.
  \<open>Unrepresentable\<close> marks a parse result outside the modelled fragment of JSON (a
  non-integer numeral, a code unit above 255).
\<close>

datatype error =
    TypeError
  | SyntaxError
  | UnresolvedReferenceError "string list"
  | MissingHandlerError string
  | CyclicReferenceError
  | MalformedSchemaError
  | Unrepresentable

definition andThen :: "error + 'a \<Rightarrow> ('a \<Rightarrow> error + 'b) \<Rightarrow> error + 'b" where
  "andThen m f = (case m of Inl e \<Rightarrow> Inl e | Inr x \<Rightarrow> f x)"

text \<open>\<^verbatim>\<open>xs.forEach\<close> / \<^verbatim>\<open>xs.reduce\<close> with a body that may throw: the first failure ends the loop.\<close>

fun foldE :: "('s \<Rightarrow> 'a \<Rightarrow> error + 's) \<Rightarrow> 'a list \<Rightarrow> 's \<Rightarrow> error + 's" where
  "foldE f [] s = Inr s"
| "foldE f (x # xs) s = (case f s x of Inl e \<Rightarrow> Inl e | Inr s' \<Rightarrow> foldE f xs s')"

text \<open>\<^verbatim>\<open>xs.map\<close> with a body that may throw.\<close>

fun mapE :: "('a \<Rightarrow> error + 'b) \<Rightarrow> 'a list \<Rightarrow> error + 'b list" where
  "mapE f [] = Inr []"
| "mapE f (x # xs) =
     (case f x of Inl e \<Rightarrow> Inl e
      | Inr y \<Rightarrow> (case mapE f xs of Inl e \<Rightarrow> Inl e | Inr ys \<Rightarrow> Inr (y # ys)))"

text \<open>\<^verbatim>\<open>xs.filter\<close> with a predicate that may throw.\<close>

fun filterE :: "('a \<Rightarrow> error + bool) \<Rightarrow> 'a list \<Rightarrow> error + 'a list" where
  "filterE p [] = Inr []"
| "filterE p (x # xs) =
     (case p x of Inl e \<Rightarrow> Inl e
      | Inr b \<Rightarrow> (case filterE p xs of Inl e \<Rightarrow> Inl e
                  | Inr ys \<Rightarrow> Inr (if b then x # ys else ys)))"

subsection \<open>Numerals and property keys\<close>

definition dq :: char where "dq = CHR 0x22"
definition bs :: char where "bs = CHR 0x5C"

text \<open>Code units and numbers are integers throughout.\<close>

definition code_unit :: "char \<Rightarrow> int" where
  "code_unit c = of_char c"

definition is_digit :: "char \<Rightarrow> bool" where
  "is_digit c = (48 \<le> code_unit c \<and> code_unit c \<le> 57)"

definition digit_val :: "char \<Rightarrow> int" where
  "digit_val c = code_unit c - 48"

text \<open>The decimal numeral of a number that is not negative.\<close>

function digits_of :: "int \<Rightarrow> string" where
  "digits_of n = (if n < 10 then [char_of (48 + n)]
                  else digits_of (n div 10) @ [char_of (48 + n mod 10)])"
  by pat_completeness auto
termination
  by (relation "measure nat") auto

declare digits_of.simps [simp del]

definition show_int :: "int \<Rightarrow> string" where
  "show_int i = (if i < 0 then CHR ''-'' # digits_of (- i) else digits_of i)"

definition int_of_digits :: "string \<Rightarrow> int" where
  "int_of_digits s = foldl (\<lambda>n c. 10 * n + digit_val c) 0 s"

text \<open>
  An array index is a canonical numeral below \<open>2^32 - 1\<close>; such keys come first, in
  ascending order, in the property order of an object.
\<close>

definition is_array_index :: "string \<Rightarrow> bool" where
  "is_array_index k =
     (k \<noteq> [] \<and> list_all is_digit k \<and> (k = ''0'' \<or> hd k \<noteq> CHR ''0'')
      \<and> int_of_digits k < 4294967295)"

fun insert_index :: "string \<Rightarrow> json \<Rightarrow> (string \<times> json) list \<Rightarrow> (string \<times> json) list" where
  "insert_index k v [] = [(k, v)]"
| "insert_index k v ((k', v') # ps) =
     (if is_array_index k' \<and> int_of_digits k' < int_of_digits k
      then (k', v') # insert_index k v ps
      else (k, v) # (k', v') # ps)"

text \<open>
  \<^verbatim>\<open>o[k] = v\<close> on an ordinary object: an existing property keeps its place, a new
  array-index key is sorted in among the index keys, any other new key goes last.
\<close>

definition obj_set :: "(string \<times> json) list \<Rightarrow> string \<Rightarrow> json \<Rightarrow> (string \<times> json) list" where
  "obj_set kvs k v =
     (if is_array_index k \<and> map_of kvs k = None then insert_index k v kvs
      else AList.update k v kvs)"

text \<open>
  The own enumerable properties of a value, as \<^verbatim>\<open>Object.keys\<close> and the spread
  \<^verbatim>\<open>{...x}\<close> enumerate them: the members of an object, the elements of an array and
  the code units of a string under their indices, nothing for the other kinds.
\<close>

fun indexed :: "int \<Rightarrow> json list \<Rightarrow> (string \<times> json) list" where
  "indexed i [] = []"
| "indexed i (x # xs) = (digits_of i, x) # indexed (i + 1) xs"

fun own_props :: "json \<Rightarrow> (string \<times> json) list" where
  "own_props (JObj kvs) = kvs"
| "own_props (JArr xs) = indexed 0 xs"
| "own_props (JStr s) = indexed 0 (map (\<lambda>c. JStr [c]) s)"
| "own_props _ = []"

text \<open>\<^verbatim>\<open>{...x}\<close>: undefined and null spread to nothing.\<close>

definition spread :: "json option \<Rightarrow> (string \<times> json) list" where
  "spread x = (case x of None \<Rightarrow> [] | Some v \<Rightarrow> own_props v)"

text \<open>\<^verbatim>\<open>{...a, ...b}\<close> where \<open>a\<close> and \<open>b\<close> are property lists.\<close>

definition spread_over :: "(string \<times> json) list \<Rightarrow> (string \<times> json) list \<Rightarrow> (string \<times> json) list" where
  "spread_over a b = fold (\<lambda>(k, v) acc. obj_set acc k v) b a"

text \<open>\<^verbatim>\<open>Object.keys(x)\<close>: throws on undefined and null.\<close>

definition object_keys :: "json option \<Rightarrow> error + string list" where
  "object_keys x =
     (case x of None \<Rightarrow> Inl TypeError | Some JNull \<Rightarrow> Inl TypeError
      | Some v \<Rightarrow> Inr (map fst (own_props v)))"

text \<open>
  \<^verbatim>\<open>x[k]\<close> / \<^verbatim>\<open>x.k\<close> for a value that is neither undefined nor null: the own
  properties, and \<^verbatim>\<open>length\<close> of an array or string.  What a value inherits from the
  built-in prototypes are functions (\<^verbatim>\<open>filter\<close>, \<^verbatim>\<open>concat\<close>, \<^verbatim>\<open>charAt\<close>, ...), not data
  of the document; the source calls them, and each call is modelled where it occurs.
\<close>

definition get_prop :: "json \<Rightarrow> string \<Rightarrow> json option" where
  "get_prop v k =
     (case v of
        JArr xs \<Rightarrow> if k = ''length'' then Some (JNum (int (length xs))) else map_of (own_props v) k
      | JStr s \<Rightarrow> if k = ''length'' then Some (JNum (int (length s))) else map_of (own_props v) k
      | _ \<Rightarrow> map_of (own_props v) k)"

text \<open>The same read where the base may be undefined or null: then a TypeError.\<close>

definition read_prop :: "json option \<Rightarrow> string \<Rightarrow> error + json option" where
  "read_prop x k =
     (case x of None \<Rightarrow> Inl TypeError | Some JNull \<Rightarrow> Inl TypeError
      | Some v \<Rightarrow> Inr (get_prop v k))"

text \<open>Truthiness, as \<^verbatim>\<open>!x\<close>, \<^verbatim>\<open>x || y\<close> and \<^verbatim>\<open>if (x)\<close> test it.\<close>

definition truthy :: "json option \<Rightarrow> bool" where
  "truthy x =
     (case x of None \<Rightarrow> False
      | Some JNull \<Rightarrow> False
      | Some (JBool b) \<Rightarrow> b
      | Some (JNum n) \<Rightarrow> n \<noteq> 0
      | Some (JStr s) \<Rightarrow> s \<noteq> []
      | Some _ \<Rightarrow> True)"

text \<open>
  The string a value turns into when it is used as a property key
  (\<^verbatim>\<open>acc[key]\<close>, \<^verbatim>\<open>{[param.name]: ...}\<close>).
\<close>

fun to_key :: "json \<Rightarrow> string" and join_keys :: "json list \<Rightarrow> string" where
  "to_key JNull = ''null''"
| "to_key (JBool b) = (if b then ''true'' else ''false'')"
| "to_key (JNum n) = show_int n"
| "to_key (JStr s) = s"
| "to_key (JArr xs) = join_keys xs"
| "to_key (JObj kvs) = ''[object Object]''"
| "join_keys [] = []"
| "join_keys [x] = (if x = JNull then [] else to_key x)"
| "join_keys (x # y # ys) = (if x = JNull then [] else to_key x) @ CHR '','' # join_keys (y # ys)"

definition property_key :: "json option \<Rightarrow> string" where
  "property_key x = (case x of None \<Rightarrow> ''undefined'' | Some v \<Rightarrow> to_key v)"

section \<open>JSON text\<close>

subsection \<open>\<^verbatim>\<open>JSON.stringify\<close>\<close>

definition hex_digit :: "int \<Rightarrow> char" where
  "hex_digit n = (if n < 10 then char_of (48 + n) else char_of (87 + n))"

definition quote_char :: "char \<Rightarrow> string" where
  "quote_char c =
     (let n = code_unit c in
      if c = dq then [bs, dq]
      else if c = bs then [bs, bs]
      else if n = 8 then [bs, CHR ''b'']
      else if n = 9 then [bs, CHR ''t'']
      else if n = 10 then [bs, CHR ''n'']
      else if n = 12 then [bs, CHR ''f'']
      else if n = 13 then [bs, CHR ''r'']
      else if n < 32 then [bs, CHR ''u'', CHR ''0'', CHR ''0'', hex_digit (n div 16), hex_digit (n mod 16)]
      else [c])"

definition quote_string :: "string \<Rightarrow> string" where
  "quote_string s = dq # concat (map quote_char s) @ [dq]"

fun JSON_stringify :: "json \<Rightarrow> string"
  and stringify_elems :: "json list \<Rightarrow> string"
  and stringify_members :: "(string \<times> json) list \<Rightarrow> string" where
  "JSON_stringify JNull = ''null''"
| "JSON_stringify (JBool b) = (if b then ''true'' else ''false'')"
| "JSON_stringify (JNum n) = show_int n"
| "JSON_stringify (JStr s) = quote_string s"
| "JSON_stringify (JArr xs) = CHR ''['' # stringify_elems xs @ '']''"
| "JSON_stringify (JObj kvs) = CHR ''{'' # stringify_members kvs @ ''}''"
| "stringify_elems [] = []"
| "stringify_elems [x] = JSON_stringify x"
| "stringify_elems (x # y # ys) = JSON_stringify x @ CHR '','' # stringify_elems (y # ys)"
| "stringify_members [] = []"
| "stringify_members [(k, v)] = quote_string k @ CHR '':'' # JSON_stringify v"
| "stringify_members ((k, v) # m # ms) =
     quote_string k @ CHR '':'' # JSON_stringify v @ CHR '','' # stringify_members (m # ms)"

subsection \<open>\<^verbatim>\<open>JSON.parse\<close>: tokens\<close>

datatype token =
    TLBrace | TRBrace | TLBrack | TRBrack | TColon | TComma
  | TStr string | TNum int | TTrue | TFalse | TNull

definition hex_val :: "char \<Rightarrow> int option" where
  "hex_val c =
     (let n = code_unit c in
      if 48 \<le> n \<and> n \<le> 57 then Some (n - 48)
      else if 97 \<le> n \<and> n \<le> 102 then Some (n - 87)
      else if 65 \<le> n \<and> n \<le> 70 then Some (n - 55)
      else None)"

definition hex4 :: "char \<Rightarrow> char \<Rightarrow> char \<Rightarrow> char \<Rightarrow> int option" where
  "hex4 a b c d =
     (case (hex_val a, hex_val b, hex_val c, hex_val d) of
        (Some w, Some x, Some y, Some z) \<Rightarrow> Some (((w * 16 + x) * 16 + y) * 16 + z)
      | _ \<Rightarrow> None)"

definition unescape :: "char \<Rightarrow> char option" where
  "unescape e =
     (if e = dq then Some dq
      else if e = bs then Some bs
      else if e = CHR ''/'' then Some CHR ''/''
      else if e = CHR ''b'' then Some (char_of (8 :: int))
      else if e = CHR ''f'' then Some (char_of (12 :: int))
      else if e = CHR ''n'' then Some (char_of (10 :: int))
      else if e = CHR ''r'' then Some (char_of (13 :: int))
      else if e = CHR ''t'' then Some (char_of (9 :: int))
      else None)"

text \<open>
  The body of a string literal, from behind its opening quote: the decoded string and
  the text behind the closing quote.
\<close>

fun lex_string :: "string \<Rightarrow> error + (string \<times> string)" where
  "lex_string [] = Inl SyntaxError"
| "lex_string (c # cs) =
     (if c = dq then Inr ([], cs)
      else if c = bs then
        (case cs of
           [] \<Rightarrow> Inl SyntaxError
         | e # r \<Rightarrow>
             if e = CHR ''u'' then
               (case r of
                  h1 # h2 # h3 # h4 # r' \<Rightarrow>
                    (case hex4 h1 h2 h3 h4 of
                       None \<Rightarrow> Inl SyntaxError
                     | Some n \<Rightarrow>
                         if n < 256 then
                           (case lex_string r' of Inl x \<Rightarrow> Inl x
                            | Inr (s, rest) \<Rightarrow> Inr (char_of n # s, rest))
                         else Inl Unrepresentable)
                | _ \<Rightarrow> Inl SyntaxError)
             else
               (case unescape e of
                  None \<Rightarrow> Inl SyntaxError
                | Some d \<Rightarrow>
                    (case lex_string r of Inl x \<Rightarrow> Inl x
                     | Inr (s, rest) \<Rightarrow> Inr (d # s, rest))))
      else if code_unit c < 32 then Inl SyntaxError
      else (case lex_string cs of Inl x \<Rightarrow> Inl x | Inr (s, rest) \<Rightarrow> Inr (c # s, rest)))"

text \<open>
  A numeral: an optional minus sign, then \<open>0\<close> or a digit string without leading zero.
  A fraction or an exponent behind it leaves the modelled fragment.
\<close>

definition integer_part :: "string \<Rightarrow> string" where
  "integer_part t = (if t \<noteq> [] \<and> hd t = CHR ''0'' then ''0'' else takeWhile is_digit t)"

definition fraction_follows :: "string \<Rightarrow> bool" where
  "fraction_follows rest = (rest \<noteq> [] \<and> hd rest \<in> {CHR ''.'', CHR ''e'', CHR ''E''})"

definition lex_number :: "string \<Rightarrow> error + (int \<times> string)" where
  "lex_number s =
     (let neg = (s \<noteq> [] \<and> hd s = CHR ''-'');
          t = (if neg then tl s else s);
          ds = integer_part t;
          rest = drop (length ds) t
      in if ds = [] then Inl SyntaxError
         else if fraction_follows rest then Inl Unrepresentable
         else Inr ((if neg then - int_of_digits ds else int_of_digits ds), rest))"

definition is_space :: "char \<Rightarrow> bool" where
  "is_space c = (code_unit c \<in> {32, 9, 10, 13})"

lemma lex_string_shorter: "lex_string s = Inr (d, r) \<Longrightarrow> length r < length s"
proof (induction s arbitrary: d r rule: lex_string.induct)
  case 1
  then show ?case by simp
next
  case (2 c cs)
  then show ?case
    by (fastforce split: if_splits list.splits option.splits sum.splits prod.splits)
qed

lemma lex_number_shorter: "lex_number s = Inr (n, r) \<Longrightarrow> length r < length s"
  by (cases s) (auto simp: lex_number_def integer_part_def Let_def split: if_splits)

text \<open>The token at the front of a text that does not begin with white space.\<close>

definition next_token :: "char \<Rightarrow> string \<Rightarrow> error + (token \<times> string)" where
  "next_token c cs =
     (if c = CHR ''{'' then Inr (TLBrace, cs)
      else if c = CHR ''}'' then Inr (TRBrace, cs)
      else if c = CHR ''['' then Inr (TLBrack, cs)
      else if c = CHR '']'' then Inr (TRBrack, cs)
      else if c = CHR '':'' then Inr (TColon, cs)
      else if c = CHR '','' then Inr (TComma, cs)
      else if c = dq then
        (case lex_string cs of Inl e \<Rightarrow> Inl e | Inr (s, rest) \<Rightarrow> Inr (TStr s, rest))
      else if c = CHR ''-'' \<or> is_digit c then
        (case lex_number (c # cs) of Inl e \<Rightarrow> Inl e | Inr (n, rest) \<Rightarrow> Inr (TNum n, rest))
      else if take 4 (c # cs) = ''true'' then Inr (TTrue, drop 3 cs)
      else if take 5 (c # cs) = ''false'' then Inr (TFalse, drop 4 cs)
      else if take 4 (c # cs) = ''null'' then Inr (TNull, drop 3 cs)
      else Inl SyntaxError)"

lemma next_token_shorter: "next_token c cs = Inr (t, rest) \<Longrightarrow> length rest < length (c # cs)"
  by (auto simp: next_token_def split: if_splits sum.splits prod.splits
      dest!: lex_string_shorter lex_number_shorter)

function lex :: "string \<Rightarrow> error + token list" where
  "lex [] = Inr []"
| "lex (c # cs) =
     (if is_space c then lex cs
      else case next_token c cs of
             Inl e \<Rightarrow> Inl e
           | Inr (t, rest) \<Rightarrow> (case lex rest of Inl e \<Rightarrow> Inl e | Inr ts \<Rightarrow> Inr (t # ts)))"
  by pat_completeness auto
termination
  by (relation "measure length") (auto dest!: next_token_shorter)

declare lex.simps [simp del]

subsection \<open>\<^verbatim>\<open>JSON.parse\<close>: values\<close>

text \<open>
  The token stream is read by a stack machine.  A frame is a container under
  construction: an array with the elements read so far, or an object with the members
  read so far and the key that waits for its value.  A member whose key repeats an
  earlier one overwrites it, as \<^verbatim>\<open>JSON.parse\<close> does.
\<close>

datatype frame =
    FArr "json list"
  | FObj "(string \<times> json) list" "string option"

datatype pstate =
    PValue
  | PValueOrEnd
  | PKeyOrEnd
  | PKey
  | PColon
  | PNext
  | PDone json

fun complete :: "frame list \<Rightarrow> json \<Rightarrow> (frame list \<times> pstate) option" where
  "complete [] v = Some ([], PDone v)"
| "complete (FArr xs # st) v = Some (FArr (xs @ [v]) # st, PNext)"
| "complete (FObj kvs (Some k) # st) v = Some (FObj (obj_set kvs k v) None # st, PNext)"
| "complete (FObj kvs None # st) v = None"

fun open_value :: "frame list \<Rightarrow> token \<Rightarrow> (frame list \<times> pstate) option" where
  "open_value st TLBrack = Some (FArr [] # st, PValueOrEnd)"
| "open_value st TLBrace = Some (FObj [] None # st, PKeyOrEnd)"
| "open_value st (TStr s) = complete st (JStr s)"
| "open_value st (TNum n) = complete st (JNum n)"
| "open_value st TTrue = complete st (JBool True)"
| "open_value st TFalse = complete st (JBool False)"
| "open_value st TNull = complete st JNull"
| "open_value st _ = None"

fun close_array :: "frame list \<Rightarrow> (frame list \<times> pstate) option" where
  "close_array (FArr xs # st) = complete st (JArr xs)"
| "close_array _ = None"

fun close_object :: "frame list \<Rightarrow> (frame list \<times> pstate) option" where
  "close_object (FObj kvs None # st) = complete st (JObj kvs)"
| "close_object _ = None"

fun set_key :: "frame list \<Rightarrow> string \<Rightarrow> (frame list \<times> pstate) option" where
  "set_key (FObj kvs None # st) k = Some (FObj kvs (Some k) # st, PColon)"
| "set_key _ k = None"

fun pstep :: "frame list \<times> pstate \<Rightarrow> token \<Rightarrow> (frame list \<times> pstate) option" where
  "pstep (st, PValue) t = open_value st t"
| "pstep (st, PValueOrEnd) t = (if t = TRBrack then close_array st else open_value st t)"
| "pstep (st, PKeyOrEnd) t =
     (case t of TRBrace \<Rightarrow> close_object st | TStr k \<Rightarrow> set_key st k | _ \<Rightarrow> None)"
| "pstep (st, PKey) t = (case t of TStr k \<Rightarrow> set_key st k | _ \<Rightarrow> None)"
| "pstep (st, PColon) t = (if t = TColon then Some (st, PValue) else None)"
| "pstep (st, PNext) t =
     (case st of
        FArr xs # st' \<Rightarrow>
          (if t = TComma then Some (st, PValue) else if t = TRBrack then close_array st else None)
      | FObj kvs ko # st' \<Rightarrow>
          (if t = TComma then Some (st, PKey) else if t = TRBrace then close_object st else None)
      | [] \<Rightarrow> None)"
| "pstep (st, PDone v) t = None"

fun prun :: "frame list \<times> pstate \<Rightarrow> token list \<Rightarrow> (frame list \<times> pstate) option" where
  "prun c [] = Some c"
| "prun c (t # ts) = (case pstep c t of None \<Rightarrow> None | Some c' \<Rightarrow> prun c' ts)"

definition parse_tokens :: "token list \<Rightarrow> error + json" where
  "parse_tokens ts =
     (case prun ([], PValue) ts of
        Some ([], PDone v) \<Rightarrow> Inr v
      | _ \<Rightarrow> Inl SyntaxError)"

definition JSON_parse :: "string \<Rightarrow> error + json" where
  "JSON_parse s = andThen (lex s) parse_tokens"

section \<open>Text replacement and the reference scan\<close>

text \<open>
  \<^verbatim>\<open>String.prototype.replaceAll\<close> with a string pattern and a string replacement.  The
  replacement is a template: \<^verbatim>\<open>$$\<close> stands for a dollar sign, \<^verbatim>\<open>$&\<close> for the matched
  text, \<^verbatim>\<open>$`\<close> for the text before the match and \<^verbatim>\<open>$'\<close> for the text behind it; any
  other use of \<^verbatim>\<open>$\<close> is literal (a string pattern has no capture groups).
\<close>

fun GetSubstitution :: "string \<Rightarrow> string \<Rightarrow> string \<Rightarrow> string \<Rightarrow> string" where
  "GetSubstitution matched front behind [] = []"
| "GetSubstitution matched front behind [c] = [c]"
| "GetSubstitution matched front behind (c # d # ds) =
     (if c = CHR ''$'' \<and> d = CHR ''$'' then CHR ''$'' # GetSubstitution matched front behind ds
      else if c = CHR ''$'' \<and> d = CHR ''&'' then matched @ GetSubstitution matched front behind ds
      else if c = CHR ''$'' \<and> d = CHR 0x60 then front @ GetSubstitution matched front behind ds
      else if c = CHR ''$'' \<and> d = CHR 0x27 then behind @ GetSubstitution matched front behind ds
      else c # GetSubstitution matched front behind (d # ds))"

text \<open>
  \<open>replaceAll_from pat repl front s\<close>: \<open>s\<close> is the text still to be searched,
  \<open>front\<close> the text of the original string in front of it.  Matches are found left to
  right and do not overlap.
\<close>

lemma match_consumes:
  "pat \<noteq> [] \<Longrightarrow> take (length pat) s = pat \<Longrightarrow> length s - length pat < length s"
  by (cases s; cases pat) auto

function replaceAll_from :: "string \<Rightarrow> string \<Rightarrow> string \<Rightarrow> string \<Rightarrow> string" where
  "replaceAll_from pat repl front s =
     (if pat = [] then
        (case s of
           [] \<Rightarrow> GetSubstitution [] front [] repl
         | c # cs \<Rightarrow> GetSubstitution [] front s repl @ c # replaceAll_from pat repl (front @ [c]) cs)
      else if take (length pat) s = pat then
        GetSubstitution pat front (drop (length pat) s) repl
          @ replaceAll_from pat repl (front @ pat) (drop (length pat) s)
      else
        (case s of
           [] \<Rightarrow> []
         | c # cs \<Rightarrow> c # replaceAll_from pat repl (front @ [c]) cs))"
  by pat_completeness auto
termination
  by (relation "measure (\<lambda>(pat, repl, front, s). length s)") (auto simp: match_consumes)

declare replaceAll_from.simps [simp del]

definition replaceAll :: "string \<Rightarrow> string \<Rightarrow> string \<Rightarrow> string" where
  "replaceAll s pat repl = replaceAll_from pat repl [] s"

section \<open>ReferenceResolver\<close>

text \<open>
  \<^verbatim>\<open>getRefsInsideSpec\<close> runs the regular expression
  \<^verbatim>\<open>/"\$ref":[ ]?"[^"]+"/gi\<close> over the text and collects every match.  \<open>match_ref s\<close>
  is one attempt to match at the front of \<open>s\<close>: the matched text and what follows it.
  The flag \<^verbatim>\<open>i\<close> lets the letters of \<^verbatim>\<open>ref\<close> be of either case.
\<close>

definition match_ref :: "string \<Rightarrow> (string \<times> string) option" where
  "match_ref s =
     (case s of
        q # d # r # e # f # q' # c # t \<Rightarrow>
          if q = dq \<and> d = CHR ''$'' \<and> r \<in> {CHR ''r'', CHR ''R''} \<and> e \<in> {CHR ''e'', CHR ''E''}
             \<and> f \<in> {CHR ''f'', CHR ''F''} \<and> q' = dq \<and> c = CHR '':''
          then
            (let sp = (if t \<noteq> [] \<and> hd t = CHR '' '' then '' '' else []);
                 u = drop (length sp) t
             in case u of
                  [] \<Rightarrow> None
                | o' # body \<Rightarrow>
                    let run = takeWhile (\<lambda>x. x \<noteq> dq) body;
                        behind = dropWhile (\<lambda>x. x \<noteq> dq) body
                    in if o' = dq \<and> run \<noteq> [] \<and> behind \<noteq> []
                       then Some ([q, d, r, e, f, q', c] @ sp @ [o'] @ run @ [dq], tl behind)
                       else None)
          else None
      | _ \<Rightarrow> None)"

lemma match_ref_shorter: "match_ref s = Some (m, rest) \<Longrightarrow> length rest < length s"
proof -
  assume a: "match_ref s = Some (m, rest)"
  then obtain q d r e f q' c t where s: "s = q # d # r # e # f # q' # c # t"
    by (auto simp: match_ref_def split: list.splits)
  define u where "u = drop (length (if t \<noteq> [] \<and> hd t = CHR '' '' then '' '' else [])) t"
  have ut: "length u \<le> length t"
    by (simp add: u_def)
  from a s obtain o' body where u: "u = o' # body" and rest: "rest = tl (dropWhile (\<lambda>x. x \<noteq> dq) body)"
    by (auto simp: match_ref_def Let_def u_def split: list.splits if_splits)
  have "length rest \<le> length body"
    unfolding rest using length_dropWhile_le [of "\<lambda>x. x \<noteq> dq" body] by simp
  with ut u s show ?thesis by simp
qed

function getRefsInsideSpec :: "string \<Rightarrow> string list" where
  "getRefsInsideSpec [] = []"
| "getRefsInsideSpec (c # cs) =
     (case match_ref (c # cs) of
        Some (m, rest) \<Rightarrow> m # getRefsInsideSpec rest
      | None \<Rightarrow> getRefsInsideSpec cs)"
  by pat_completeness auto
termination
  by (relation "measure length") (auto dest: match_ref_shorter)

declare getRefsInsideSpec.simps [simp del]

text \<open>
  One component: its serialised text without the outer braces replaces every occurrence
  of the text \<^verbatim>\<open>"$ref":"#/components/<group>/<key>"\<close> in the serialised document, and
  the result is parsed again.
\<close>

definition resolveComponent :: "string \<Rightarrow> json \<Rightarrow> string \<Rightarrow> error + json" where
  \<open>resolveComponent componentGroupKey specs componentKey =
     andThen (read_prop (Some specs) ''components'') (\<lambda>components.
     andThen (read_prop components componentGroupKey) (\<lambda>group.
     andThen (read_prop group componentKey) (\<lambda>component.
       case component of
         None \<Rightarrow> Inl TypeError
       | Some c \<Rightarrow>
           let componentStr = butlast (drop 1 (JSON_stringify c))
           in JSON_parse
                (replaceAll (JSON_stringify specs)
                   (''"$ref":"#/components/'' @ componentGroupKey @ ''/'' @ componentKey @ ''"'')
                   componentStr))))\<close>

definition resolveGroup :: "json \<Rightarrow> string \<Rightarrow> error + json" where
  "resolveGroup specs componentGroupKey =
     andThen (read_prop (Some specs) ''components'') (\<lambda>components.
     andThen (read_prop components componentGroupKey) (\<lambda>group.
     andThen (object_keys group) (\<lambda>componentKeyArray.
       foldE (resolveComponent componentGroupKey) componentKeyArray specs)))"

definition resolveInternalReferences :: "json \<Rightarrow> error + json" where
  "resolveInternalReferences openApiSpec =
     andThen (JSON_parse (JSON_stringify openApiSpec)) (\<lambda>specs0.
     andThen (read_prop (Some specs0) ''components'') (\<lambda>components.
     andThen (object_keys components) (\<lambda>groupKeys.
     andThen (foldE resolveGroup groupKeys specs0) (\<lambda>specs.
       let remainingRefsList = getRefsInsideSpec (JSON_stringify specs)
       in if remainingRefsList \<noteq> [] then Inl (UnresolvedReferenceError remainingRefsList)
          else Inr specs))))"

section \<open>PathTransformer and handler names\<close>


text \<open>\<^verbatim>\<open>toLowerCase\<close> on one code unit below 256.\<close>

definition toLowerCase_unit :: "char \<Rightarrow> char" where
  "toLowerCase_unit c =
     (let n = code_unit c in
      if (65 \<le> n \<and> n \<le> 90) \<or> (192 \<le> n \<and> n \<le> 222 \<and> n \<noteq> 215) then char_of (n + 32) else c)"

text \<open>
  \<^verbatim>\<open>str.charAt(0).toLowerCase() + str.slice(1)\<close>; anything but a string has no
  \<^verbatim>\<open>charAt\<close> to call.
\<close>

definition createCamelCaseFromStr :: "json option \<Rightarrow> error + string" where
  "createCamelCaseFromStr str =
     (case str of
        Some (JStr s) \<Rightarrow> Inr (case s of [] \<Rightarrow> [] | c # cs \<Rightarrow> toLowerCase_unit c # cs)
      | _ \<Rightarrow> Inl TypeError)"

text \<open>
  \<^verbatim>\<open>toUpperCase\<close> on the letters \<^verbatim>\<open>a\<close> to \<^verbatim>\<open>z\<close>; the source applies it to the
  names of \<open>methodsArray\<close> only.
\<close>

definition toUpperCase :: "string \<Rightarrow> string" where
  "toUpperCase s =
     map (\<lambda>c. let n = code_unit c in if 97 \<le> n \<and> n \<le> 122 then char_of (n - 32) else c) s"

section \<open>ParameterMapper\<close>

definition parseParameterKey :: "json option \<Rightarrow> json option" where
  "parseParameterKey paramKey =
     (if paramKey = Some (JStr ''path'') then Some (JStr ''params'')
      else if paramKey = Some (JStr ''query'') then Some (JStr ''querystring'')
      else paramKey)"

definition wrapEmptyObjects :: "json option \<Rightarrow> json" where
  "wrapEmptyObjects properties =
     JObj [(''type'', JStr ''object''), (''properties'', JObj (spread properties))]"

text \<open>
  The callback of \<^verbatim>\<open>reduce\<close> in \<^verbatim>\<open>parseParameters\<close>.  The accumulator is read and
  written through its own properties.  (Under a key that names a function of
  \<^verbatim>\<open>Object.prototype\<close> the source reads that function, which is truthy and spreads to
  nothing: the result is the same.  A parameter whose location is \<^verbatim>\<open>__proto__\<close> would
  reach the prototype accessor of the accumulator instead; the theorems about
  \<open>parseParameters\<close> exclude that location.)
\<close>

definition addParameter :: "(string \<times> json) list \<Rightarrow> json \<Rightarrow> error + (string \<times> json) list" where
  "addParameter acc param =
     andThen (read_prop (Some param) ''in'') (\<lambda>location.
     andThen (read_prop (Some param) ''name'') (\<lambda>name.
     andThen (read_prop (Some param) ''schema'') (\<lambda>schema.
       let key = property_key (parseParameterKey location);
           paramTransformed = [(property_key name, JObj (spread schema))];
           acc1 = (if \<not> truthy (map_of acc key) then obj_set acc key (JObj []) else acc)
       in Inr (obj_set acc1 key (JObj (spread_over (spread (map_of acc1 key)) paramTransformed))))))"

definition parseParameters :: "json option \<Rightarrow> error + (string \<times> json) list" where
  "parseParameters parameterArray =
     (if \<not> truthy parameterArray then Inr []
      else case parameterArray of
             Some (JArr params) \<Rightarrow>
               andThen (foldE addParameter params []) (\<lambda>outputParameters.
                 Inr (map (\<lambda>(typeParam, v). (typeParam, wrapEmptyObjects (Some v))) outputParameters))
           | _ \<Rightarrow> Inl TypeError)"

section \<open>SchemaFilter\<close>

text \<open>
  \<^verbatim>\<open>JSON.parse(JSON.stringify(x))\<close>: \<^verbatim>\<open>JSON.stringify(undefined)\<close> is undefined, and
  the text \<^verbatim>\<open>undefined\<close> is no JSON text.
\<close>

definition JSON_clone :: "json option \<Rightarrow> error + json" where
  "JSON_clone x = (case x of None \<Rightarrow> Inl SyntaxError | Some v \<Rightarrow> JSON_parse (JSON_stringify v))"

text \<open>
  \<^verbatim>\<open>required.filter((key) => kept.includes(key))\<close>: only an array has \<^verbatim>\<open>filter\<close>, and
  only a string can be included in a list of keys.
\<close>

definition filter_required :: "json option \<Rightarrow> string list \<Rightarrow> error + json list" where
  "filter_required required kept =
     (case required of
        Some (JArr rs) \<Rightarrow> Inr (filter (\<lambda>x. case x of JStr s \<Rightarrow> s \<in> set kept | _ \<Rightarrow> False) rs)
      | _ \<Rightarrow> Inl TypeError)"

text \<open>
  \<^verbatim>\<open>keys.reduce((acc, k) => ({...acc, [k]: props[k]}), {})\<close>.  The keys are own keys of
  \<open>props\<close>, so each read finds a value.
\<close>

definition pick_properties :: "json option \<Rightarrow> string list \<Rightarrow> (string \<times> json) list" where
  "pick_properties props keys =
     fold (\<lambda>k acc. case map_of (spread props) k of None \<Rightarrow> acc | Some v \<Rightarrow> obj_set acc k v) keys []"

text \<open>
  The selection at the head of both filters: the property map and the required list of
  the schema itself, or those of its \<^verbatim>\<open>items\<close> when the schema has type \<^verbatim>\<open>array\<close>.
\<close>

definition select_properties :: "json option \<Rightarrow> error + (json option \<times> json option)" where
  "select_properties schema =
     andThen (read_prop schema ''properties'') (\<lambda>p0.
     andThen (read_prop schema ''required'') (\<lambda>r0.
     andThen (read_prop schema ''type'') (\<lambda>ty.
       if ty = Some (JStr ''array'') then
         andThen (read_prop schema ''items'') (\<lambda>items.
         andThen (read_prop items ''properties'') (\<lambda>p.
         andThen (read_prop items ''required'') (\<lambda>r. Inr (p, r))))
       else Inr (p0, r0))))"

text \<open>
  The assignments at the end of both filters, on the shallow copy \<^verbatim>\<open>{...schema}\<close>: the
  filtered property map and, when \<open>required\<close> is given, the filtered required list are
  stored in the copy, or in its \<^verbatim>\<open>items\<close> for type \<^verbatim>\<open>array\<close>.  (The \<^verbatim>\<open>items\<close> object is
  shared with the argument, which the source therefore changes too; the document it
  belongs to is the resolver's private copy and every schema is filtered once, so the
  model returns the result only.)
\<close>

definition store_filtered :: "json option \<Rightarrow> json \<Rightarrow> json option \<Rightarrow> error + json" where
  "store_filtered schema properties required =
     (let filteredSchema = spread schema in
      if map_of filteredSchema ''type'' = Some (JStr ''array'') then
        (case map_of filteredSchema ''items'' of
           Some (JObj items) \<Rightarrow>
             let items1 = obj_set items ''properties'' properties;
                 items2 = (case required of None \<Rightarrow> items1 | Some r \<Rightarrow> obj_set items1 ''required'' r)
             in Inr (JObj (obj_set filteredSchema ''items'' (JObj items2)))
         | _ \<Rightarrow> Inl TypeError)
      else
        (let s1 = obj_set filteredSchema ''properties'' properties;
             s2 = (case required of None \<Rightarrow> s1 | Some r \<Rightarrow> obj_set s1 ''required'' r)
         in Inr (JObj s2)))"

definition filterReadOnlyProperties :: "json option \<Rightarrow> error + json" where
  "filterReadOnlyProperties schema =
     andThen (object_keys schema) (\<lambda>keys.
       if keys = [] then Inr (JObj [])
       else
         andThen (select_properties schema) (\<lambda>(schemaProperties, required).
         andThen (JSON_clone schemaProperties) (\<lambda>clone.
         andThen (object_keys (Some clone)) (\<lambda>propertyKeys.
         andThen (filterE (\<lambda>propertyKey.
                    andThen (read_prop schemaProperties propertyKey) (\<lambda>p.
                    andThen (read_prop p ''readOnly'') (\<lambda>flag. Inr (\<not> truthy flag))))
                  propertyKeys) (\<lambda>filteredPropertiesArray.
         andThen (filter_required required filteredPropertiesArray) (\<lambda>filteredRequiredProperties.
           store_filtered schema
             (JObj (pick_properties schemaProperties filteredPropertiesArray))
             (Some (JArr filteredRequiredProperties))))))))"

definition filterWriteOnlyProperties :: "json option \<Rightarrow> error + json" where
  "filterWriteOnlyProperties schema =
     andThen (object_keys schema) (\<lambda>keys.
       if keys = [] then Inr (JObj [])
       else
         andThen (select_properties schema) (\<lambda>(schemaProperties, required).
         andThen (JSON_clone schemaProperties) (\<lambda>clone.
         andThen (object_keys (Some clone)) (\<lambda>propertyKeys.
         andThen (filterE (\<lambda>propertyKey.
                    andThen (read_prop schemaProperties propertyKey) (\<lambda>p.
                    andThen (read_prop p ''writeOnly'') (\<lambda>flag. Inr (\<not> truthy flag))))
                  propertyKeys) (\<lambda>filteredPropertiesArray.
         andThen (if truthy required
                  then andThen (filter_required required filteredPropertiesArray) (\<lambda>rs. Inr (Some (JArr rs)))
                  else Inr None) (\<lambda>filteredRequiredProperties.
           store_filtered schema
             (JObj (pick_properties schemaProperties filteredPropertiesArray))
             filteredRequiredProperties))))))"

section \<open>RequestBodyBuilder and ResponseBuilder\<close>

definition parseRequestBody :: "json option \<Rightarrow> error + (string \<times> json) list" where
  "parseRequestBody requestBody =
     (let content = (case requestBody of None \<Rightarrow> None | Some JNull \<Rightarrow> None
                     | Some b \<Rightarrow> get_prop b ''content'')
      in if truthy content then
           andThen (read_prop content ''application/json'') (\<lambda>json_content.
             if truthy json_content then
               andThen (read_prop json_content ''schema'') (\<lambda>schema.
               andThen (filterReadOnlyProperties schema) (\<lambda>body. Inr [(''body'', body)]))
             else Inr [])
         else Inr [])"

text \<open>
  The callback of \<^verbatim>\<open>reduce\<close> in \<^verbatim>\<open>parseResponses\<close>.  The accumulator is a fresh object;
  assigning to its key \<^verbatim>\<open>__proto__\<close> sets its prototype and adds no property.
\<close>

definition addResponse :: "json option \<Rightarrow> (string \<times> json) list \<Rightarrow> string \<Rightarrow> error + (string \<times> json) list" where
  "addResponse responseSpecList acc responseCode =
     andThen (read_prop responseSpecList responseCode) (\<lambda>typesOfResponse.
     andThen (read_prop typesOfResponse ''content'') (\<lambda>content.
       if truthy content then
         andThen (read_prop content ''application/json'') (\<lambda>json_content.
           if truthy json_content then
             andThen (read_prop json_content ''schema'') (\<lambda>schema.
             andThen (filterWriteOnlyProperties (if truthy schema then schema else Some (JObj [])))
               (\<lambda>filtered.
                 Inr (if responseCode = ''__proto__'' then acc
                      else obj_set acc responseCode filtered)))
           else Inr acc)
       else Inr acc))"

definition parseResponses :: "json option \<Rightarrow> error + (string \<times> json) list" where
  "parseResponses responseSpecList =
     andThen (object_keys responseSpecList) (\<lambda>codes.
     andThen (foldE (addResponse responseSpecList) codes []) (\<lambda>reponseSchema.
       Inr (if reponseSchema \<noteq> [] then [(''response'', JObj reponseSchema)] else [])))"

section \<open>MethodCompiler\<close>

text \<open>
  What \<^verbatim>\<open>parseMethods\<close> returns for one verb.  The handler registry is a lookup:
  \<open>handlers k = Some h\<close> when \<^verbatim>\<open>handlers[k]\<close> is a function, namely \<open>h\<close>, and
  \<open>None\<close> when it is anything else or missing.
\<close>

record 'h route_spec =
  http_method :: string
  schema :: "(string \<times> json) list"
  handler :: 'h

definition methodsArray :: "string list" where
  "methodsArray = [''get'', ''put'', ''post'', ''delete'', ''options'', ''head'', ''patch'', ''trace'']"

text \<open>
  \<^verbatim>\<open>localParameters.concat(globalParameters)\<close>.  An array appends the elements of an
  array argument and any other argument as one element; a string has its own
  \<^verbatim>\<open>concat\<close>, which yields a string; no other value has the method.
\<close>

definition concat_parameters :: "json \<Rightarrow> json \<Rightarrow> error + json" where
  "concat_parameters localParameters globalParameters =
     (case localParameters of
        JArr xs \<Rightarrow> Inr (JArr (case globalParameters of JArr ys \<Rightarrow> xs @ ys | g \<Rightarrow> xs @ [g]))
      | JStr s \<Rightarrow> Inr (JStr (s @ to_key globalParameters))
      | _ \<Rightarrow> Inl TypeError)"

text \<open>\<^verbatim>\<open>x || []\<close>.\<close>

definition or_empty_array :: "json option \<Rightarrow> json" where
  "or_empty_array x = (case x of Some v \<Rightarrow> if truthy x then v else JArr [] | None \<Rightarrow> JArr [])"

text \<open>
  The callback of \<^verbatim>\<open>map\<close> in \<^verbatim>\<open>parseMethods\<close>: one verb of the path item.  A missing
  handler ends the process after the report (\<open>MissingHandlerError\<close>, with the name the
  report prints).  The schema is the spread of the three parts, in this order.
\<close>

definition parseMethod ::
  "json option \<Rightarrow> (string \<Rightarrow> 'h option) \<Rightarrow> json \<Rightarrow> string \<Rightarrow> error + 'h route_spec" where
  "parseMethod openAPIMethodSpecList handlers globalParameters m =
     andThen (read_prop openAPIMethodSpecList m) (\<lambda>operation.
     andThen (read_prop operation ''operationId'') (\<lambda>rawId.
     andThen (createCamelCaseFromStr rawId) (\<lambda>operationId.
       case handlers operationId of
         None \<Rightarrow> Inl (MissingHandlerError operationId)
       | Some h \<Rightarrow>
           andThen (read_prop operation ''parameters'') (\<lambda>lp.
           andThen (concat_parameters (or_empty_array lp) globalParameters) (\<lambda>allParameters.
           andThen (parseParameters (Some allParameters)) (\<lambda>finalParams.
           andThen (parseParameters (Some allParameters)) (\<lambda>params.
           andThen (read_prop operation ''requestBody'') (\<lambda>requestBody.
           andThen (parseRequestBody requestBody) (\<lambda>body.
           andThen (read_prop operation ''responses'') (\<lambda>responses.
           andThen (parseResponses responses) (\<lambda>response.
             Inr \<lparr>http_method = toUpperCase m,
                  schema = spread_over (spread_over params body) response,
                  handler = h\<rparr>)))))))))))"

definition parseMethods :: "json option \<Rightarrow> (string \<Rightarrow> 'h option) \<Rightarrow> error + 'h route_spec list" where
  "parseMethods openAPIMethodSpecList handlers =
     andThen (read_prop openAPIMethodSpecList ''parameters'') (\<lambda>gp.
     andThen (object_keys openAPIMethodSpecList) (\<lambda>keys.
       mapE (parseMethod openAPIMethodSpecList handlers (or_empty_array gp))
         (filter (\<lambda>m. m \<in> set methodsArray) keys)))"

section \<open>RouteCompiler\<close>




section \<open>Specification-level notions\<close>

text \<open>
  The words of the specification for the parameter mapper: the location key of a
  parameter (its \<^verbatim>\<open>in\<close>, translated), the name it is filed under, the copy of its
  schema, and, for a location and a name, the schema of the last parameter of a list
  that has both.
\<close>

definition location_key :: "json \<Rightarrow> string" where
  "location_key p = property_key (parseParameterKey (get_prop p ''in''))"

definition name_key :: "json \<Rightarrow> string" where
  "name_key p = property_key (get_prop p ''name'')"

definition schema_copy :: "json \<Rightarrow> json" where
  "schema_copy p = JObj (spread (get_prop p ''schema''))"

definition last_schema :: "json list \<Rightarrow> string \<Rightarrow> string \<Rightarrow> json option" where
  "last_schema ps k n =
     map_option schema_copy (find (\<lambda>p. location_key p = k \<and> name_key p = n) (rev ps))"

text \<open>
  \<open>merged ps acc\<close>: the accumulator holds, for every location key of \<open>ps\<close>, an object
  whose property \<open>n\<close> is the schema of the last parameter of \<open>ps\<close> with that location
  and name \<open>n\<close>, and nothing else.  \<open>grouped ps out\<close> says the same of the result, where
  each location is wrapped as \<^verbatim>\<open>{type: 'object', properties: ...}\<close> and has no other key.
\<close>

definition merged :: "json list \<Rightarrow> (string \<times> json) list \<Rightarrow> bool" where
  "merged ps acc =
     (distinct (map fst acc) \<and>
      (\<forall>k. (k \<notin> location_key ` set ps \<longrightarrow> map_of acc k = None) \<and>
           (k \<in> location_key ` set ps \<longrightarrow>
              (\<exists>props. map_of acc k = Some (JObj props) \<and> distinct (map fst props) \<and>
                       (\<forall>n. map_of props n = last_schema ps k n)))))"

definition grouped :: "json list \<Rightarrow> (string \<times> json) list \<Rightarrow> bool" where
  "grouped ps out =
     (distinct (map fst out) \<and>
      (\<forall>k. (k \<notin> location_key ` set ps \<longrightarrow> map_of out k = None) \<and>
           (k \<in> location_key ` set ps \<longrightarrow>
              (\<exists>props. map_of out k =
                         Some (JObj [(''type'', JStr ''object''), (''properties'', JObj props)]) \<and>
                       distinct (map fst props) \<and>
                       (\<forall>n. map_of props n = last_schema ps k n)))))"

text \<open>
  The verbs of a path item in the order of its keys, and the handler name of an
  operationId: the first character in lower case.
\<close>

definition path_verbs :: "json \<Rightarrow> string list" where
  "path_verbs item = filter (\<lambda>m. m \<in> set methodsArray) (map fst (own_props item))"

definition lower_first :: "string \<Rightarrow> string" where
  "lower_first s = (case s of [] \<Rightarrow> [] | c # cs \<Rightarrow> toLowerCase_unit c # cs)"


text \<open>
  Documents as JavaScript holds them: in every object the keys are distinct and in
  property order, that is, the array-index keys come first in ascending order.
\<close>

definition key_before :: "string \<Rightarrow> string \<Rightarrow> bool" where
  "key_before k k' = (is_array_index k' \<longrightarrow> is_array_index k \<and> int_of_digits k < int_of_digits k')"

definition js_object :: "(string \<times> json) list \<Rightarrow> bool" where
  "js_object kvs = (distinct (map fst kvs) \<and> sorted_wrt key_before (map fst kvs))"

fun wf_json :: "json \<Rightarrow> bool"
  and wf_elems :: "json list \<Rightarrow> bool"
  and wf_members :: "(string \<times> json) list \<Rightarrow> bool" where
  "wf_json (JArr xs) = wf_elems xs"
| "wf_json (JObj kvs) = (js_object kvs \<and> wf_members kvs)"
| "wf_json _ = True"
| "wf_elems [] = True"
| "wf_elems (x # xs) = (wf_json x \<and> wf_elems xs)"
| "wf_members [] = True"
| "wf_members ((k, v) # kvs) = (wf_json v \<and> wf_members kvs)"

text \<open>
  The tokens of the text that \<open>JSON_stringify\<close> writes, and the notions used to follow
  the lexer and the stack machine over that text: a text behind a numeral must begin
  with a delimiter; \<open>lex_after ts rest\<close> is the token list \<open>ts\<close> followed by the tokens of
  \<open>rest\<close>.
\<close>

fun tokens_of :: "json \<Rightarrow> token list"
  and elem_tokens :: "json list \<Rightarrow> token list"
  and member_tokens :: "(string \<times> json) list \<Rightarrow> token list" where
  "tokens_of JNull = [TNull]"
| "tokens_of (JBool b) = [if b then TTrue else TFalse]"
| "tokens_of (JNum n) = [TNum n]"
| "tokens_of (JStr s) = [TStr s]"
| "tokens_of (JArr xs) = TLBrack # elem_tokens xs @ [TRBrack]"
| "tokens_of (JObj kvs) = TLBrace # member_tokens kvs @ [TRBrace]"
| "elem_tokens [] = []"
| "elem_tokens [x] = tokens_of x"
| "elem_tokens (x # y # ys) = tokens_of x @ TComma # elem_tokens (y # ys)"
| "member_tokens [] = []"
| "member_tokens [(k, v)] = TStr k # TColon # tokens_of v"
| "member_tokens ((k, v) # m # ms) = TStr k # TColon # tokens_of v @ TComma # member_tokens (m # ms)"

definition delimited :: "string \<Rightarrow> bool" where
  "delimited rest = (rest = [] \<or> hd rest \<in> {CHR '','', CHR '']'', CHR ''}''})"

definition lex_after :: "token list \<Rightarrow> string \<Rightarrow> error + token list" where
  "lex_after ts rest = (case lex rest of Inl e \<Rightarrow> Inl e | Inr ts' \<Rightarrow> Inr (ts @ ts'))"

definition value_mode :: "pstate \<Rightarrow> bool" where
  "value_mode m = (m = PValue \<or> m = PValueOrEnd)"

definition key_mode :: "pstate \<Rightarrow> bool" where
  "key_mode m = (m = PKeyOrEnd \<or> m = PKey)"

text \<open>
  The words of the specification for the schema filters: the property map without the
  properties that carry a truthy flag, the required list pruned to the names that are
  kept, and the \<^verbatim>\<open>items\<close> object with both replaced.
\<close>

definition without_flagged :: "string \<Rightarrow> (string \<times> json) list \<Rightarrow> (string \<times> json) list" where
  "without_flagged flag props = filter (\<lambda>(k, v). \<not> truthy (get_prop v flag)) props"

definition pruned_required :: "(string \<times> json) list \<Rightarrow> json list \<Rightarrow> json list" where
  "pruned_required kept rs = filter (\<lambda>r. r \<in> JStr ` fst ` set kept) rs"

definition filtered_items :: "string \<Rightarrow> (string \<times> json) list \<Rightarrow> (string \<times> json) list \<Rightarrow> (string \<times> json) list" where
  "filtered_items flag items props =
     (let kept = without_flagged flag props;
          items1 = AList.update ''properties'' (JObj kept) items
      in case map_of items ''required'' of
           Some (JArr rs) \<Rightarrow> AList.update ''required'' (JArr (pruned_required kept rs)) items1
         | _ \<Rightarrow> items1)"

subsection \<open>Example documents\<close>

definition example_params :: "json list" where
  "example_params =
     [JObj [(''in'', JStr ''path''), (''name'', JStr ''id''),
            (''schema'', JObj [(''type'', JStr ''integer'')]), (''required'', JBool True)],
      JObj [(''in'', JStr ''query''), (''name'', JStr ''id''),
            (''schema'', JObj [(''type'', JStr ''string'')])],
      JObj [(''in'', JStr ''path''), (''name'', JStr ''id''),
            (''schema'', JObj [(''type'', JStr ''boolean'')])],
      JObj [(''in'', JStr ''header''), (''name'', JStr ''h''),
            (''schema'', JObj [(''type'', JStr ''boolean'')])]]"

text \<open>
  A path item with the shared parameter \<^verbatim>\<open>id\<close> (in path, integer), the operation
  \<^verbatim>\<open>get\<close> with its own parameter \<^verbatim>\<open>id\<close> (in path, string), and the operation \<^verbatim>\<open>post\<close>.
\<close>

definition example_item :: json where
  "example_item =
     JObj [(''parameters'',
              JArr [JObj [(''in'', JStr ''path''), (''name'', JStr ''id''),
                          (''schema'', JObj [(''type'', JStr ''integer'')])]]),
           (''get'',
              JObj [(''operationId'', JStr ''GetDocument''),
                    (''parameters'',
                       JArr [JObj [(''in'', JStr ''path''), (''name'', JStr ''id''),
                                   (''schema'', JObj [(''type'', JStr ''string'')])]]),
                    (''responses'', JObj [])]),
           (''post'',
              JObj [(''operationId'', JStr ''AddDocument''), (''responses'', JObj [])])]"

definition example_handlers :: "string \<Rightarrow> nat option" where
  "example_handlers k =
     (if k = ''getDocument'' then Some 1 else if k = ''addDocument'' then Some 2 else None)"

definition get_only :: "string \<Rightarrow> nat option" where
  "get_only k = (if k = ''getDocument'' then Some 1 else None)"

section \<open>Objects, loops and results: basic facts\<close>

lemma map_of_insert_index:
  "map_of kvs k = None \<Longrightarrow> map_of (insert_index k v kvs) = (map_of kvs)(k \<mapsto> v)"
  by (induction kvs) (auto split: if_splits)

lemma map_of_obj_set: "map_of (obj_set kvs k v) = (map_of kvs)(k \<mapsto> v)"
  by (simp add: obj_set_def map_of_insert_index update_conv')

lemma set_insert_index: "set (insert_index k v kvs) = insert (k, v) (set kvs)"
  by (induction kvs) (auto split: if_splits)

lemma set_keys_insert_index: "fst ` set (insert_index k v kvs) = insert k (fst ` set kvs)"
  by (simp add: set_insert_index)

lemma distinct_insert_index:
  "distinct (map fst kvs) \<Longrightarrow> k \<notin> fst ` set kvs \<Longrightarrow> distinct (map fst (insert_index k v kvs))"
  by (induction kvs) (auto simp: set_keys_insert_index)

lemma distinct_obj_set:
  "distinct (map fst kvs) \<Longrightarrow> distinct (map fst (obj_set kvs k v))"
  by (auto simp: obj_set_def distinct_insert_index distinct_update map_of_eq_None_iff)

lemma map_of_spread_over_other:
  "k \<notin> fst ` set b \<Longrightarrow> map_of (spread_over a b) k = map_of a k"
  unfolding spread_over_def
  by (induction b arbitrary: a) (auto simp: map_of_obj_set)

lemma foldE_snoc:
  "foldE f (xs @ [x]) s = (case foldE f xs s of Inl e \<Rightarrow> Inl e | Inr s' \<Rightarrow> f s' x)"
  by (induction xs arbitrary: s) (auto split: sum.splits)


lemma andThen_Inr_iff: "andThen m f = Inr y \<longleftrightarrow> (\<exists>x. m = Inr x \<and> f x = Inr y)"
  by (cases m) (simp_all add: andThen_def)


lemma mapE_Inr_nth:
  "mapE f xs = Inr ys \<Longrightarrow> length ys = length xs \<and> (\<forall>i<length xs. f (xs ! i) = Inr (ys ! i))"
proof (induction xs arbitrary: ys)
  case Nil
  then show ?case by simp
next
  case (Cons x xs)
  then obtain y ys' where y: "f x = Inr y" "mapE f xs = Inr ys'" "ys = y # ys'"
    by (auto split: sum.splits)
  with Cons.IH [of ys'] show ?case
    by (auto simp: nth_Cons split: nat.splits)
qed

lemma mapE_first_failure:
  "i < length xs \<Longrightarrow> f (xs ! i) = Inl e \<Longrightarrow> (\<forall>j<i. \<exists>y. f (xs ! j) = Inr y) \<Longrightarrow> mapE f xs = Inl e"
proof (induction xs arbitrary: i)
  case Nil
  then show ?case by simp
next
  case (Cons x xs)
  show ?case
  proof (cases i)
    case 0
    with Cons.prems show ?thesis by simp
  next
    case (Suc i')
    from Cons.prems(3) Suc obtain y where y: "f x = Inr y" by fastforce
    have "mapE f xs = Inl e"
    proof (rule Cons.IH [of i'])
      show "i' < length xs" using Cons.prems(1) Suc by simp
      show "f (xs ! i') = Inl e" using Cons.prems(2) Suc by simp
      show "\<forall>j<i'. \<exists>y. f (xs ! j) = Inr y"
        using Cons.prems(3) Suc by fastforce
    qed
    with y show ?thesis by simp
  qed
qed

lemma mapE_some_failure:
  "i < length xs \<Longrightarrow> f (xs ! i) = Inl e \<Longrightarrow> \<exists>e'. mapE f xs = Inl e'"
proof (induction xs arbitrary: i)
  case Nil
  then show ?case by simp
next
  case (Cons x xs)
  show ?case
  proof (cases i)
    case 0
    with Cons.prems show ?thesis by simp
  next
    case (Suc i')
    with Cons.prems Cons.IH [of i'] show ?thesis
      by (auto split: sum.splits)
  qed
qed

lemma find_append:
  "find P (xs @ ys) = (case find P xs of Some x \<Rightarrow> Some x | None \<Rightarrow> find P ys)"
  by (induction xs) auto

lemma find_SomeD: "find P xs = Some x \<Longrightarrow> P x \<and> x \<in> set xs"
  by (induction xs) (auto split: if_splits)

lemma read_prop_Some_Inr:
  "read_prop (Some item) m = Inr v \<Longrightarrow> item \<noteq> JNull \<and> v = get_prop item m"
  by (cases item) (auto simp: read_prop_def)

lemma read_prop_Inr:
  "read_prop x m = Inr v \<Longrightarrow> \<exists>item. x = Some item \<and> item \<noteq> JNull \<and> v = get_prop item m"
  by (cases x) (auto simp: read_prop_def dest: read_prop_Some_Inr split: json.splits)



section \<open>The text of a document parses to the document\<close>

subsection \<open>Strings\<close>

lemma code_unit_range: "0 \<le> code_unit c \<and> code_unit c < 256"
proof -
  have "code_unit c mod 256 = code_unit c"
    unfolding code_unit_def by (rule of_char_mod_256)
  then show ?thesis
    by (metis pos_mod_bound pos_mod_sign zero_less_numeral)
qed

lemma char_of_code_unit: "char_of (code_unit c) = c"
  by (simp add: code_unit_def)

lemma code_unit_char_of: "0 \<le> n \<Longrightarrow> n < 256 \<Longrightarrow> code_unit (char_of n) = n"
  by (simp add: code_unit_def)

lemma hex_val_hex_digit: "0 \<le> d \<Longrightarrow> d < 16 \<Longrightarrow> hex_val (hex_digit d) = Some d"
  by (auto simp: hex_val_def hex_digit_def Let_def code_unit_char_of)

lemma hex4_control:
  assumes "0 \<le> n" "n < 32"
  shows "hex4 CHR ''0'' CHR ''0'' (hex_digit (n div 16)) (hex_digit (n mod 16)) = Some n"
proof -
  have z: "hex_val CHR ''0'' = Some 0"
    by (simp add: hex_val_def code_unit_def)
  have a: "hex_val (hex_digit (n div 16)) = Some (n div 16)"
    using assms by (intro hex_val_hex_digit) auto
  have b: "hex_val (hex_digit (n mod 16)) = Some (n mod 16)"
    by (intro hex_val_hex_digit) auto
  show ?thesis
    by (simp add: hex4_def z a b)
qed

lemma lex_string_quote_char:
  "lex_string (quote_char c @ rest) =
     (case lex_string rest of Inl x \<Rightarrow> Inl x | Inr (s, r) \<Rightarrow> Inr (c # s, r))"
proof -
  let ?n = "code_unit c"
  have c: "char_of ?n = c" by (rule char_of_code_unit)
  have rng: "0 \<le> ?n" "?n < 256" using code_unit_range [of c] by auto
  have bsdq: "bs \<noteq> dq" by (simp add: bs_def dq_def)
  consider (dq) "c = dq" | (bs) "c = bs" | (b) "c \<noteq> dq" "c \<noteq> bs" "?n = 8"
    | (t) "c \<noteq> dq" "c \<noteq> bs" "?n = 9" | (n) "c \<noteq> dq" "c \<noteq> bs" "?n = 10"
    | (f) "c \<noteq> dq" "c \<noteq> bs" "?n = 12" | (r) "c \<noteq> dq" "c \<noteq> bs" "?n = 13"
    | (u) "c \<noteq> dq" "c \<noteq> bs" "?n < 32" "?n \<notin> {8, 9, 10, 12, 13}"
    | (plain) "c \<noteq> dq" "c \<noteq> bs" "\<not> ?n < 32"
    by auto
  then show ?thesis
  proof cases
    case dq
    then show ?thesis
      by (auto simp: quote_char_def Let_def unescape_def dq_def bs_def split: sum.splits)
  next
    case bs
    then show ?thesis
      by (auto simp: quote_char_def Let_def unescape_def dq_def bs_def split: sum.splits)
  next
    case b
    with c have "c = char_of (8::int)" by simp
    with b show ?thesis
      by (auto simp: quote_char_def Let_def unescape_def dq_def bs_def split: sum.splits)
  next
    case t
    with c have "c = char_of (9::int)" by simp
    with t show ?thesis
      by (auto simp: quote_char_def Let_def unescape_def dq_def bs_def split: sum.splits)
  next
    case n
    with c have "c = char_of (10::int)" by simp
    with n show ?thesis
      by (auto simp: quote_char_def Let_def unescape_def dq_def bs_def split: sum.splits)
  next
    case f
    with c have "c = char_of (12::int)" by simp
    with f show ?thesis
      by (auto simp: quote_char_def Let_def unescape_def dq_def bs_def split: sum.splits)
  next
    case r
    with c have "c = char_of (13::int)" by simp
    with r show ?thesis
      by (auto simp: quote_char_def Let_def unescape_def dq_def bs_def split: sum.splits)
  next
    case u
    from hex4_control [OF rng(1) u(3)] have h: "hex4 CHR ''0'' CHR ''0'' (hex_digit (?n div 16)) (hex_digit (?n mod 16)) = Some ?n" .
    from u have q: "quote_char c = [bs, CHR ''u'', CHR ''0'', CHR ''0'', hex_digit (?n div 16), hex_digit (?n mod 16)]"
      by (simp add: quote_char_def Let_def)
    show ?thesis
      unfolding q using h rng c by (auto simp: bsdq split: sum.splits)
  next
    case plain
    then show ?thesis
      by (auto simp: quote_char_def Let_def split: sum.splits)
  qed
qed

lemma lex_string_quoted:
  "lex_string (concat (map quote_char s) @ dq # rest) = Inr (s, rest)"
  by (induction s) (simp_all add: lex_string_quote_char)

subsection \<open>Numerals\<close>

lemma digit_char: "0 \<le> d \<Longrightarrow> d < 10 \<Longrightarrow> is_digit (char_of (48 + d)) \<and> digit_val (char_of (48 + d)) = d"
  by (simp add: is_digit_def digit_val_def code_unit_char_of)

lemma digits_of_nonempty: "digits_of n \<noteq> []"
  by (subst digits_of.simps) simp

lemma digits_of_digits: "0 \<le> n \<Longrightarrow> list_all is_digit (digits_of n)"
proof (induction n rule: digits_of.induct)
  case (1 n)
  show ?case
  proof (cases "n < 10")
    case True
    with "1.prems" show ?thesis
      by (subst digits_of.simps) (simp add: digit_char)
  next
    case False
    with "1.prems" have "0 \<le> n div 10" by simp
    with "1.IH" False have "list_all is_digit (digits_of (n div 10))" by simp
    moreover have "is_digit (char_of (48 + n mod 10))"
      by (intro digit_char [THEN conjunct1]) auto
    ultimately show ?thesis using False
      by (subst digits_of.simps) simp
  qed
qed

lemma int_of_digits_snoc: "int_of_digits (xs @ [c]) = 10 * int_of_digits xs + digit_val c"
  by (simp add: int_of_digits_def)

lemma int_of_digits_of: "0 \<le> n \<Longrightarrow> int_of_digits (digits_of n) = n"
proof (induction n rule: digits_of.induct)
  case (1 n)
  show ?case
  proof (cases "n < 10")
    case True
    with "1.prems" show ?thesis
      by (subst digits_of.simps) (simp add: int_of_digits_def digit_char)
  next
    case False
    with "1.prems" have "0 \<le> n div 10" by simp
    with "1.IH" False have "int_of_digits (digits_of (n div 10)) = n div 10" by simp
    moreover have "digit_val (char_of (48 + n mod 10)) = n mod 10"
      by (intro digit_char [THEN conjunct2]) auto
    ultimately show ?thesis using False
      by (subst digits_of.simps) (simp add: int_of_digits_snoc)
  qed
qed

lemma char_of_48: "char_of (48::int) = CHR ''0''"
  by (rule of_char_eqI [where ?'a = int]) simp

lemma digits_of_zero: "digits_of 0 = ''0''"
  by (subst digits_of.simps) (simp add: char_of_48)

lemma digits_of_leading: "0 < n \<Longrightarrow> hd (digits_of n) \<noteq> CHR ''0''"
proof (induction n rule: digits_of.induct)
  case (1 n)
  show ?case
  proof (cases "n < 10")
    case True
    have "code_unit (char_of (48 + n)) = 48 + n"
      using True "1.prems" by (intro code_unit_char_of) auto
    moreover have "code_unit CHR ''0'' = 48" by (simp add: code_unit_def)
    ultimately have "char_of (48 + n) \<noteq> CHR ''0''" using "1.prems" by auto
    with True show ?thesis
      by (subst digits_of.simps) simp
  next
    case False
    then have "0 < n div 10" by simp
    with "1.IH" False have "hd (digits_of (n div 10)) \<noteq> CHR ''0''" by simp
    with False show ?thesis
      by (subst digits_of.simps) (simp add: digits_of_nonempty)
  qed
qed

lemma no_fraction_delimited: "delimited rest \<Longrightarrow> \<not> fraction_follows rest"
  by (auto simp: delimited_def fraction_follows_def)

lemma not_digit_delimited: "delimited rest \<Longrightarrow> rest \<noteq> [] \<Longrightarrow> \<not> is_digit (hd rest)"
  by (auto simp: delimited_def is_digit_def code_unit_def)

lemma takeWhile_digits:
  assumes "list_all is_digit ds" "delimited rest"
  shows "takeWhile is_digit (ds @ rest) = ds"
proof -
  have "takeWhile is_digit rest = []"
    using not_digit_delimited [OF assms(2)] by (cases rest) auto
  with assms(1) show ?thesis
    by (simp add: takeWhile_append2 list_all_iff)
qed

lemma integer_part_digits_of:
  assumes n: "0 \<le> n" and d: "delimited rest"
  shows "integer_part (digits_of n @ rest) = digits_of n"
proof (cases "n = 0")
  case True
  then show ?thesis by (simp add: integer_part_def digits_of_zero)
next
  case False
  with n have "hd (digits_of n) \<noteq> CHR ''0''" by (intro digits_of_leading) simp
  then have "hd (digits_of n @ rest) \<noteq> CHR ''0''"
    by (simp add: digits_of_nonempty)
  then show ?thesis
    using takeWhile_digits [OF digits_of_digits [OF n] d]
    by (simp add: integer_part_def)
qed

lemma minus_not_digit: "is_digit c \<Longrightarrow> c \<noteq> CHR ''-''"
  by (auto simp: is_digit_def code_unit_def)

lemma hd_digits_of: "0 \<le> n \<Longrightarrow> is_digit (hd (digits_of n))"
  using digits_of_digits [of n] digits_of_nonempty [of n]
  by (cases "digits_of n") auto

lemma lex_number_show_int:
  assumes d: "delimited rest"
  shows "lex_number (show_int i @ rest) = Inr (i, rest)"
proof (cases "i < 0")
  case True
  then have n: "0 \<le> - i" by simp
  have s: "show_int i @ rest = CHR ''-'' # (digits_of (- i) @ rest)"
    using True by (simp add: show_int_def)
  show ?thesis
    unfolding s lex_number_def
    using True
    by (simp add: Let_def integer_part_digits_of [OF n d] no_fraction_delimited [OF d]
        digits_of_nonempty int_of_digits_of [OF n])
next
  case False
  then have n: "0 \<le> i" by simp
  have h: "hd (digits_of i @ rest) \<noteq> CHR ''-''"
    using hd_digits_of [OF n] minus_not_digit by (simp add: digits_of_nonempty)
  have s: "show_int i @ rest = digits_of i @ rest"
    using False by (simp add: show_int_def)
  show ?thesis
    unfolding s lex_number_def
    using h
    by (simp add: Let_def integer_part_digits_of [OF n d] no_fraction_delimited [OF d]
        digits_of_nonempty int_of_digits_of [OF n] del: hd_append2)
qed

subsection \<open>Tokens of a serialised value\<close>

lemma lex_after_Nil: "lex_after [] rest = lex rest"
  by (simp add: lex_after_def split: sum.splits)

lemma lex_after_append:
  "lex r1 = lex_after ts2 r2 \<Longrightarrow> lex_after ts1 r1 = lex_after (ts1 @ ts2) r2"
  by (simp add: lex_after_def split: sum.splits)

lemma lex_token:
  "\<not> is_space c \<Longrightarrow> next_token c cs = Inr (t, rest) \<Longrightarrow> lex (c # cs) = lex_after [t] rest"
  by (simp add: lex.simps lex_after_def split: sum.splits)

lemma lex_punct:
  "lex (CHR ''['' # cs) = lex_after [TLBrack] cs"
  "lex (CHR '']'' # cs) = lex_after [TRBrack] cs"
  "lex (CHR ''{'' # cs) = lex_after [TLBrace] cs"
  "lex (CHR ''}'' # cs) = lex_after [TRBrace] cs"
  "lex (CHR '','' # cs) = lex_after [TComma] cs"
  "lex (CHR '':'' # cs) = lex_after [TColon] cs"
  by (rule lex_token; simp add: is_space_def code_unit_def next_token_def)+

lemma lex_literals:
  "lex (''null'' @ rest) = lex_after [TNull] rest"
  "lex (''true'' @ rest) = lex_after [TTrue] rest"
  "lex (''false'' @ rest) = lex_after [TFalse] rest"
  by (simp; rule lex_token; simp add: is_space_def code_unit_def next_token_def dq_def is_digit_def)+

lemma lex_quoted: "lex (quote_string s @ rest) = lex_after [TStr s] rest"
proof -
  have "next_token dq (concat (map quote_char s) @ dq # rest) = Inr (TStr s, rest)"
    by (simp add: next_token_def lex_string_quoted) (simp add: dq_def)
  moreover have "\<not> is_space dq"
    by (simp add: is_space_def code_unit_def dq_def)
  ultimately show ?thesis
    by (simp add: quote_string_def lex_token)
qed

lemma digit_not_special:
  assumes "c = CHR ''-'' \<or> is_digit c"
  shows "\<not> is_space c" "c \<noteq> CHR ''{''" "c \<noteq> CHR ''}''" "c \<noteq> CHR ''[''" "c \<noteq> CHR '']''"
    "c \<noteq> CHR '':''" "c \<noteq> CHR '',''" "c \<noteq> dq"
  using assms by (auto simp: is_space_def is_digit_def code_unit_def dq_def)

lemma show_int_first: "\<exists>c cs. show_int i = c # cs \<and> (c = CHR ''-'' \<or> is_digit c)"
proof (cases "i < 0")
  case True
  then show ?thesis by (simp add: show_int_def)
next
  case False
  then have "0 \<le> i" by simp
  from hd_digits_of [OF this] digits_of_nonempty [of i] False show ?thesis
    by (cases "digits_of i") (auto simp: show_int_def)
qed

lemma lex_numeral:
  assumes "delimited rest"
  shows "lex (show_int i @ rest) = lex_after [TNum i] rest"
proof -
  from show_int_first obtain c cs where c: "show_int i = c # cs" "c = CHR ''-'' \<or> is_digit c"
    by blast
  from lex_number_show_int [OF assms, of i] c(1)
  have n: "lex_number (c # cs @ rest) = Inr (i, rest)" by simp
  have "next_token c (cs @ rest) = Inr (TNum i, rest)"
    using c(2) n digit_not_special [OF c(2)] by (simp add: next_token_def)
  with digit_not_special(1) [OF c(2)] show ?thesis
    by (simp add: c(1) lex_token)
qed

lemma delimited_simps:
  "delimited []" "delimited (CHR '','' # r)" "delimited (CHR '']'' # r)" "delimited (CHR ''}'' # r)"
  by (simp_all add: delimited_def)

lemma lex_stringify:
  "delimited rest \<Longrightarrow> lex (JSON_stringify v @ rest) = lex_after (tokens_of v) rest"
  "delimited rest \<Longrightarrow> lex (stringify_elems xs @ rest) = lex_after (elem_tokens xs) rest"
  "delimited rest \<Longrightarrow> lex (stringify_members kvs @ rest) = lex_after (member_tokens kvs) rest"
proof (induction v and xs and kvs arbitrary: rest and rest and rest
    rule: JSON_stringify_stringify_elems_stringify_members.induct)
  case 1
  then show ?case by (simp add: lex_literals del: append.simps)
next
  case (2 b)
  then show ?case by (simp add: lex_literals del: append.simps)
next
  case (3 n)
  then show ?case by (simp add: lex_numeral)
next
  case (4 s)
  then show ?case by (simp add: lex_quoted)
next
  case (5 xs)
  have "lex (stringify_elems xs @ CHR '']'' # rest) = lex_after (elem_tokens xs) (CHR '']'' # rest)"
    by (rule "5.IH") (rule delimited_simps)
  then show ?case
    by (simp add: lex_punct) (simp add: lex_after_append [OF lex_punct(2)] lex_after_append)
next
  case (6 kvs)
  have "lex (stringify_members kvs @ CHR ''}'' # rest) = lex_after (member_tokens kvs) (CHR ''}'' # rest)"
    by (rule "6.IH") (rule delimited_simps)
  then show ?case
    by (simp add: lex_punct) (simp add: lex_after_append [OF lex_punct(4)] lex_after_append)
next
  case 7
  then show ?case by (simp add: lex_after_Nil)
next
  case (8 x)
  then show ?case by simp
next
  case (9 x y ys)
  have a: "lex (JSON_stringify x @ CHR '','' # stringify_elems (y # ys) @ rest) =
           lex_after (tokens_of x) (CHR '','' # stringify_elems (y # ys) @ rest)"
    by (rule "9.IH"(1)) (rule delimited_simps)
  have b: "lex (stringify_elems (y # ys) @ rest) = lex_after (elem_tokens (y # ys)) rest"
    by (rule "9.IH"(2)) (rule "9.prems")
  have c: "lex (CHR '','' # stringify_elems (y # ys) @ rest) = lex_after (TComma # elem_tokens (y # ys)) rest"
    using lex_after_append [OF b, of "[TComma]"] by (simp add: lex_punct)
  show ?case
    using a lex_after_append [OF c, of "tokens_of x"] by simp
next
  case 10
  then show ?case by (simp add: lex_after_Nil)
next
  case (11 k v)
  have b: "lex (JSON_stringify v @ rest) = lex_after (tokens_of v) rest"
    by (rule "11.IH") (rule "11.prems")
  have c: "lex (CHR '':'' # JSON_stringify v @ rest) = lex_after (TColon # tokens_of v) rest"
    using lex_after_append [OF b, of "[TColon]"] by (simp add: lex_punct)
  show ?case
    using lex_after_append [OF c, of "[TStr k]"] by (simp add: lex_quoted)
next
  case (12 k v m ms)
  have r: "lex (stringify_members (m # ms) @ rest) = lex_after (member_tokens (m # ms)) rest"
    by (rule "12.IH"(2)) (rule "12.prems")
  have cm: "lex (CHR '','' # stringify_members (m # ms) @ rest) =
            lex_after (TComma # member_tokens (m # ms)) rest"
    using lex_after_append [OF r, of "[TComma]"] by (simp add: lex_punct)
  have b: "lex (JSON_stringify v @ CHR '','' # stringify_members (m # ms) @ rest) =
           lex_after (tokens_of v) (CHR '','' # stringify_members (m # ms) @ rest)"
    by (rule "12.IH"(1)) (rule delimited_simps)
  have b': "lex (JSON_stringify v @ CHR '','' # stringify_members (m # ms) @ rest) =
            lex_after (tokens_of v @ TComma # member_tokens (m # ms)) rest"
    using b lex_after_append [OF cm, of "tokens_of v"] by simp
  have c: "lex (CHR '':'' # JSON_stringify v @ CHR '','' # stringify_members (m # ms) @ rest) =
           lex_after (TColon # tokens_of v @ TComma # member_tokens (m # ms)) rest"
    using lex_after_append [OF b', of "[TColon]"] by (simp add: lex_punct)
  show ?case
    using lex_after_append [OF c, of "[TStr k]"] by (simp add: lex_quoted)
qed

subsection \<open>Objects in property order\<close>

lemma spread_over_Cons: "spread_over acc ((k, v) # kvs) = spread_over (obj_set acc k v) kvs"
  by (simp add: spread_over_def)

lemma spread_over_Nil: "spread_over acc [] = acc"
  by (simp add: spread_over_def)

lemma update_absent: "map_of kvs k = None \<Longrightarrow> AList.update k v kvs = kvs @ [(k, v)]"
  by (induction kvs) (auto split: if_splits)

lemma insert_index_last:
  "\<forall>k'\<in>fst ` set kvs. is_array_index k' \<and> int_of_digits k' < int_of_digits k \<Longrightarrow>
   insert_index k v kvs = kvs @ [(k, v)]"
  by (induction kvs) auto

lemma obj_set_last:
  assumes "js_object (kvs @ [(k, v)])"
  shows "obj_set kvs k v = kvs @ [(k, v)]"
proof -
  from assms have absent: "map_of kvs k = None"
    by (auto simp: js_object_def map_of_eq_None_iff)
  from assms have before: "\<forall>k'\<in>fst ` set kvs. key_before k' k"
    by (auto simp: js_object_def sorted_wrt_append)
  show ?thesis
  proof (cases "is_array_index k")
    case True
    with before have "\<forall>k'\<in>fst ` set kvs. is_array_index k' \<and> int_of_digits k' < int_of_digits k"
      by (auto simp: key_before_def)
    with True absent show ?thesis
      by (simp add: obj_set_def insert_index_last)
  next
    case False
    with absent show ?thesis
      by (simp add: obj_set_def update_absent)
  qed
qed

lemma js_object_prefix: "js_object (kvs @ [p]) \<Longrightarrow> js_object kvs"
  by (auto simp: js_object_def sorted_wrt_append)

lemma spread_over_js_object: "js_object kvs \<Longrightarrow> spread_over [] kvs = kvs"
proof (induction kvs rule: rev_induct)
  case Nil
  then show ?case by (simp add: spread_over_def)
next
  case (snoc p kvs)
  obtain k v where p: "p = (k, v)" by (cases p)
  from snoc.prems have "js_object kvs" by (rule js_object_prefix)
  with snoc.IH have "spread_over [] kvs = kvs" by simp
  then have "spread_over [] (kvs @ [p]) = obj_set kvs k v"
    by (simp add: spread_over_def p)
  with obj_set_last [of kvs k v] snoc.prems p show ?case by simp
qed

lemma js_object_filter: "js_object kvs \<Longrightarrow> js_object (filter P kvs)"
proof -
  assume a: "js_object kvs"
  have m: "map fst (filter P kvs) = filter (\<lambda>k. \<exists>v. (k, v) \<in> set kvs \<and> P (k, v)) (map fst kvs)"
    using a unfolding js_object_def
  proof (induction kvs)
    case Nil
    then show ?case by simp
  next
    case (Cons p kvs)
    obtain k v where p: "p = (k, v)" by (cases p)
    from Cons.prems p have k: "k \<notin> fst ` set kvs" by auto
    have "filter (\<lambda>k'. \<exists>v'. (k', v') \<in> set (p # kvs) \<and> P (k', v')) (map fst kvs) =
          filter (\<lambda>k'. \<exists>v'. (k', v') \<in> set kvs \<and> P (k', v')) (map fst kvs)"
      using k p by (intro filter_cong) auto
    moreover have "(\<exists>v'. (k, v') \<in> set (p # kvs) \<and> P (k, v')) = P (k, v)"
      using k p by force
    ultimately show ?case
      using Cons p by auto
  qed
  from a show ?thesis
    unfolding js_object_def m by (simp add: sorted_wrt_filter)
qed

subsection \<open>Values of a token stream\<close>

lemma pstep_value:
  "value_mode m \<Longrightarrow> t \<noteq> TRBrack \<Longrightarrow> pstep (st, m) t = open_value st t"
  by (auto simp: value_mode_def)

lemma pstep_key:
  "key_mode m \<Longrightarrow> pstep (FObj acc None # st, m) (TStr k) = Some (FObj acc (Some k) # st, PColon)"
  by (auto simp: key_mode_def)

lemma prun_tokens:
  "wf_json v \<Longrightarrow> value_mode m \<Longrightarrow> complete st v = Some c \<Longrightarrow>
     prun (st, m) (tokens_of v @ ts) = prun c ts"
  "wf_elems xs \<Longrightarrow> xs \<noteq> [] \<Longrightarrow> value_mode m \<Longrightarrow> complete st (JArr (acc @ xs)) = Some c \<Longrightarrow>
     prun (FArr acc # st, m) (elem_tokens xs @ TRBrack # ts) = prun c ts"
  "wf_members kvs \<Longrightarrow> kvs \<noteq> [] \<Longrightarrow> key_mode m \<Longrightarrow>
     complete st (JObj (spread_over ms kvs)) = Some c \<Longrightarrow>
     prun (FObj ms None # st, m) (member_tokens kvs @ TRBrace # ts) = prun c ts"
proof (induction v and xs and kvs arbitrary: m st c ts and m st c ts acc and m st c ts ms
    rule: tokens_of_elem_tokens_member_tokens.induct)
  case 1
  then show ?case by (simp add: pstep_value)
next
  case (2 b)
  then show ?case by (cases b) (simp_all add: pstep_value)
next
  case (3 n)
  then show ?case by (simp add: pstep_value)
next
  case (4 s)
  then show ?case by (simp add: pstep_value)
next
  case (5 xs)
  have open_arr: "pstep (st, m) TLBrack = Some (FArr [] # st, PValueOrEnd)"
    using "5.prems"(2) by (simp add: pstep_value)
  show ?case
  proof (cases "xs = []")
    case True
    with "5.prems" open_arr show ?thesis by simp
  next
    case False
    have "prun (FArr [] # st, PValueOrEnd) (elem_tokens xs @ TRBrack # ts) = prun c ts"
      using "5.prems" False by (intro "5.IH") (simp_all add: value_mode_def)
    with open_arr show ?thesis by simp
  qed
next
  case (6 kvs)
  have open_obj: "pstep (st, m) TLBrace = Some (FObj [] None # st, PKeyOrEnd)"
    using "6.prems"(2) by (simp add: pstep_value)
  show ?case
  proof (cases "kvs = []")
    case True
    with "6.prems" open_obj show ?thesis by simp
  next
    case False
    have "prun (FObj [] None # st, PKeyOrEnd) (member_tokens kvs @ TRBrace # ts) = prun c ts"
      using "6.prems" False by (intro "6.IH") (simp_all add: key_mode_def spread_over_js_object)
    with open_obj show ?thesis by simp
  qed
next
  case 7
  then show ?case by simp
next
  case (8 x)
  have "prun (FArr acc # st, m) (tokens_of x @ TRBrack # ts) =
        prun (FArr (acc @ [x]) # st, PNext) (TRBrack # ts)"
    using "8.prems" by (intro "8.IH") simp_all
  with "8.prems" show ?case by simp
next
  case (9 x y ys)
  have a: "prun (FArr acc # st, m) (tokens_of x @ TComma # elem_tokens (y # ys) @ TRBrack # ts) =
           prun (FArr (acc @ [x]) # st, PNext) (TComma # elem_tokens (y # ys) @ TRBrack # ts)"
    using "9.prems" by (intro "9.IH"(1)) simp_all
  have b: "prun (FArr (acc @ [x]) # st, PValue) (elem_tokens (y # ys) @ TRBrack # ts) = prun c ts"
    using "9.prems" by (intro "9.IH"(2)) (simp_all add: value_mode_def)
  from a b show ?case by simp
next
  case 10
  then show ?case by simp
next
  case (11 k v)
  have a: "prun (FObj ms (Some k) # st, PValue) (tokens_of v @ TRBrace # ts) =
           prun (FObj (obj_set ms k v) None # st, PNext) (TRBrace # ts)"
    using "11.prems" by (intro "11.IH") (simp_all add: value_mode_def)
  from a "11.prems" show ?case
    by (simp add: pstep_key spread_over_Cons spread_over_Nil)
next
  case (12 k v p ps)
  have a: "prun (FObj ms (Some k) # st, PValue)
             (tokens_of v @ TComma # member_tokens (p # ps) @ TRBrace # ts) =
           prun (FObj (obj_set ms k v) None # st, PNext)
             (TComma # member_tokens (p # ps) @ TRBrace # ts)"
    using "12.prems" by (intro "12.IH"(1)) (simp_all add: value_mode_def)
  have b: "prun (FObj (obj_set ms k v) None # st, PKey) (member_tokens (p # ps) @ TRBrace # ts) =
           prun c ts"
    using "12.prems" by (intro "12.IH"(2)) (simp_all add: key_mode_def spread_over_Cons)
  from a b "12.prems" show ?case
    by (simp add: pstep_key)
qed

text \<open>
  \<^verbatim>\<open>JSON.parse(JSON.stringify(v))\<close> is \<open>v\<close> for every well-formed document: the deep copy
  the source makes this way is a copy.
\<close>

theorem JSON_roundtrip: "wf_json v \<Longrightarrow> JSON_parse (JSON_stringify v) = Inr v"
proof -
  assume wf: "wf_json v"
  have "lex (JSON_stringify v @ []) = lex_after (tokens_of v) []"
    by (rule lex_stringify) (rule delimited_simps)
  then have l: "lex (JSON_stringify v) = Inr (tokens_of v)"
    by (simp add: lex_after_def lex.simps)
  have "prun ([], PValue) (tokens_of v @ []) = prun ([], PDone v) []"
    using wf by (intro prun_tokens) (simp_all add: value_mode_def)
  then have "parse_tokens (tokens_of v) = Inr v"
    by (simp add: parse_tokens_def)
  with l show ?thesis
    by (simp add: JSON_parse_def andThen_def)
qed

section \<open>Properties of the reference resolver\<close>

text \<open>
  Claim C1 (every resolvable reference is replaced by the literal content of its
  component).  The component \<^verbatim>\<open>Price\<close> is \<^verbatim>\<open>{description: "Cost in $$"}\<close> and the path
  \<^verbatim>\<open>/p\<close> refers to it; the only reference names an existing component and nothing is
  cyclic.  The resolver returns a document without references, but the content inlined at
  \<^verbatim>\<open>/p\<close> reads \<^verbatim>\<open>"Cost in $"\<close>: the component text was used as a replacement template,
  where \<^verbatim>\<open>$$\<close> means one dollar sign.  The inlined content is not the content of the
  component.
\<close>

theorem resolve_dollar_template_not_literal:
  "resolveInternalReferences
     (JObj [(''components'',
               JObj [(''schemas'', JObj [(''Price'', JObj [(''description'', JStr ''Cost in $$'')])])]),
            (''paths'', JObj [(''/p'', JObj [(''$ref'', JStr ''#/components/schemas/Price'')])])])
   = Inr (JObj [(''components'',
                   JObj [(''schemas'', JObj [(''Price'', JObj [(''description'', JStr ''Cost in $$'')])])]),
                (''paths'', JObj [(''/p'', JObj [(''description'', JStr ''Cost in $'')])])])"
  by code_simp

text \<open>
  Claim C2 (a \<^verbatim>\<open>$ref\<close> that names no component makes the resolver fail with the
  orphan report).  Two documents with such a reference.  In the first the pointer is the
  empty string: the scan asks for at least one character between the quotes, finds
  nothing, and the resolver returns the document with the reference still in it.  In
  the second, \<^verbatim>\<open>/y\<close> refers to the missing component \<^verbatim>\<open>Missing\<close> while \<^verbatim>\<open>/x\<close> refers to
  the component \<^verbatim>\<open>A = {description: "$&"}\<close>: the replacement template puts the matched
  text into the string, the result is no JSON text, and the resolver ends in the parser's
  SyntaxError before the orphan scan is reached.
\<close>

theorem resolve_orphan_not_reported:
  "resolveInternalReferences
     (JObj [(''components'', JObj []),
            (''paths'', JObj [(''/x'', JObj [(''$ref'', JStr [])])])])
   = Inr (JObj [(''components'', JObj []),
                (''paths'', JObj [(''/x'', JObj [(''$ref'', JStr [])])])])
   \<and>
   resolveInternalReferences
     (JObj [(''components'',
               JObj [(''schemas'', JObj [(''A'', JObj [(''description'', JStr ''$&'')])])]),
            (''paths'', JObj [(''/x'', JObj [(''$ref'', JStr ''#/components/schemas/A'')]),
                              (''/y'', JObj [(''$ref'', JStr ''#/components/schemas/Missing'')])])])
   = Inl SyntaxError"
  by code_simp

subsection \<open>Cycles\<close>














section \<open>Properties of the parameter mapper\<close>

lemma addParameter_eq:
  "p \<noteq> JNull \<Longrightarrow>
   addParameter acc p =
     (let acc1 = (if \<not> truthy (map_of acc (location_key p)) then obj_set acc (location_key p) (JObj []) else acc)
      in Inr (obj_set acc1 (location_key p)
                (JObj (obj_set (spread (map_of acc1 (location_key p))) (name_key p) (schema_copy p)))))"
  by (cases p) (simp_all add: addParameter_def andThen_def read_prop_def Let_def location_key_def
      name_key_def schema_copy_def spread_over_def)

lemma last_schema_snoc:
  "last_schema (ps @ [p]) k n =
     (if location_key p = k \<and> name_key p = n then Some (schema_copy p) else last_schema ps k n)"
  by (simp add: last_schema_def)

lemma last_schema_none: "k \<notin> location_key ` set ps \<Longrightarrow> last_schema ps k n = None"
  by (auto simp: last_schema_def find_None_iff)

lemma last_schema_append:
  "last_schema (own @ shared) k n =
     (case last_schema shared k n of Some s \<Rightarrow> Some s | None \<Rightarrow> last_schema own k n)"
  by (auto simp: last_schema_def find_append split: option.splits)

lemma merged_step:
  assumes m: "merged ps acc" and p: "p \<noteq> JNull"
  shows "\<exists>acc'. addParameter acc p = Inr acc' \<and> merged (ps @ [p]) acc'"
proof (cases "location_key p \<in> location_key ` set ps")
  case True
  with m obtain props where props: "map_of acc (location_key p) = Some (JObj props)"
    "distinct (map fst props)" "\<forall>n. map_of props n = last_schema ps (location_key p) n"
    unfolding merged_def by blast
  let ?acc' = "obj_set acc (location_key p) (JObj (obj_set props (name_key p) (schema_copy p)))"
  have eq: "addParameter acc p = Inr ?acc'"
    using p props by (simp add: addParameter_eq truthy_def spread_def)
  have "merged (ps @ [p]) ?acc'"
    using m props True unfolding merged_def
    by (auto simp: map_of_obj_set distinct_obj_set last_schema_snoc)
  with eq show ?thesis by blast
next
  case False
  with m have none: "map_of acc (location_key p) = None"
    unfolding merged_def by blast
  let ?acc' = "obj_set (obj_set acc (location_key p) (JObj [])) (location_key p)
                 (JObj (obj_set [] (name_key p) (schema_copy p)))"
  have eq: "addParameter acc p = Inr ?acc'"
    using p none by (simp add: addParameter_eq truthy_def spread_def map_of_obj_set)
  have "merged (ps @ [p]) ?acc'"
    using m none False unfolding merged_def
    by (auto simp: map_of_obj_set distinct_obj_set last_schema_snoc last_schema_none)
  with eq show ?thesis by blast
qed

lemma foldE_addParameter_merged:
  "JNull \<notin> set ps \<Longrightarrow> \<exists>acc. foldE addParameter ps [] = Inr acc \<and> merged ps acc"
proof (induction ps rule: rev_induct)
  case Nil
  then show ?case by (simp add: merged_def)
next
  case (snoc p ps)
  then obtain acc where acc: "foldE addParameter ps [] = Inr acc" "merged ps acc" by auto
  from snoc.prems have "p \<noteq> JNull" by auto
  from merged_step [OF acc(2) this] acc(1) show ?case
    by (auto simp: foldE_snoc)
qed

lemma foldE_addParameter_no_null:
  "foldE addParameter ps s = Inr acc \<Longrightarrow> JNull \<notin> set ps"
proof (induction ps arbitrary: s)
  case Nil
  then show ?case by simp
next
  case (Cons p ps)
  then show ?case
    by (cases "p = JNull")
       (auto simp: addParameter_def andThen_def read_prop_def split: sum.splits)
qed

lemma map_of_wrapped:
  "map_of (map (\<lambda>(typeParam, v). (typeParam, wrapEmptyObjects (Some v))) acc) k =
     map_option (\<lambda>v. wrapEmptyObjects (Some v)) (map_of acc k)"
  by (induction acc) auto

lemma keys_wrapped:
  "map fst (map (\<lambda>(typeParam, v). (typeParam, wrapEmptyObjects (Some v))) acc) = map fst acc"
  by (induction acc) auto

lemma parseParameters_array:
  "parseParameters (Some (JArr ps)) =
     (case foldE addParameter ps [] of Inl e \<Rightarrow> Inl e
      | Inr acc \<Rightarrow> Inr (map (\<lambda>(typeParam, v). (typeParam, wrapEmptyObjects (Some v))) acc))"
  by (simp add: parseParameters_def truthy_def andThen_def)

lemma parseParameters_grouped:
  assumes "JNull \<notin> set ps"
  shows "\<exists>out. parseParameters (Some (JArr ps)) = Inr out \<and> grouped ps out"
proof -
  from foldE_addParameter_merged [OF assms] obtain acc
    where acc: "foldE addParameter ps [] = Inr acc" "merged ps acc" by blast
  let ?out = "map (\<lambda>(typeParam, v). (typeParam, wrapEmptyObjects (Some v))) acc"
  have "grouped ps ?out"
    unfolding grouped_def
  proof (intro conjI allI impI)
    show "distinct (map fst ?out)"
      unfolding keys_wrapped using acc(2) by (simp add: merged_def)
  next
    fix k assume "k \<notin> location_key ` set ps"
    with acc(2) show "map_of ?out k = None"
      by (simp add: map_of_wrapped merged_def)
  next
    fix k assume "k \<in> location_key ` set ps"
    with acc(2) obtain props where props: "map_of acc k = Some (JObj props)"
      "distinct (map fst props)" "\<forall>n. map_of props n = last_schema ps k n"
      unfolding merged_def by blast
    have "map_of ?out k = Some (wrapEmptyObjects (Some (JObj props)))"
      by (simp only: map_of_wrapped props(1) option.map)
    with props show "\<exists>props. map_of ?out k =
                 Some (JObj [(''type'', JStr ''object''), (''properties'', JObj props)]) \<and>
               distinct (map fst props) \<and> (\<forall>n. map_of props n = last_schema ps k n)"
      by (auto simp: map_of_wrapped wrapEmptyObjects_def spread_def)
  qed
  with acc(1) show ?thesis
    by (auto simp: parseParameters_array)
qed

lemma parseParameters_Inr_grouped:
  assumes "parseParameters (Some (JArr ps)) = Inr out"
  shows "grouped ps out"
proof -
  from assms obtain acc where "foldE addParameter ps [] = Inr acc"
    by (auto simp: parseParameters_array split: sum.splits)
  then have "JNull \<notin> set ps" by (rule foldE_addParameter_no_null)
  from parseParameters_grouped [OF this] assms show ?thesis by auto
qed

lemma location_key_translation:
  "get_prop p ''in'' = Some (JStr loc) \<Longrightarrow>
   location_key p = (if loc = ''path'' then ''params'' else if loc = ''query'' then ''querystring'' else loc)"
  by (simp add: location_key_def parseParameterKey_def property_key_def)

text \<open>
  Claim C8: for every list of parameters (none of them null), \<open>parseParameters\<close> returns
  an object with one key per transport location that occurs, where \<^verbatim>\<open>path\<close> is filed
  under \<^verbatim>\<open>params\<close>, \<^verbatim>\<open>query\<close> under \<^verbatim>\<open>querystring\<close> and any other location (\<^verbatim>\<open>header\<close>,
  \<^verbatim>\<open>cookie\<close>) under its own name.  The value of a location is exactly
  \<^verbatim>\<open>{type: 'object', properties: P}\<close>, with no \<^verbatim>\<open>required\<close> key, and \<open>P\<close> maps a name to
  the copy of the schema of the last parameter with that location and name: a later
  parameter overwrites an earlier one, and that is no error.
\<close>

theorem parseParameters_groups_by_location:
  assumes "JNull \<notin> set params" and "\<forall>p\<in>set params. location_key p \<noteq> ''__proto__''"
  shows "(\<exists>out. parseParameters (Some (JArr params)) = Inr out \<and> grouped params out)
         \<and> (\<forall>p\<in>set params. \<forall>loc. get_prop p ''in'' = Some (JStr loc) \<longrightarrow>
                location_key p =
                  (if loc = ''path'' then ''params''
                   else if loc = ''query'' then ''querystring'' else loc))"
  using parseParameters_grouped [OF assms(1)] location_key_translation by blast

text \<open>
  Witness for C8: two parameters \<^verbatim>\<open>id\<close> in the path (integer, then boolean), one
  \<^verbatim>\<open>id\<close> in the query and one header.
\<close>

theorem parseParameters_groups_by_location_witness:
  "\<exists>out props.
     parseParameters (Some (JArr example_params)) = Inr out \<and>
     map_of out ''params'' = Some (JObj [(''type'', JStr ''object''), (''properties'', JObj props)]) \<and>
     map_of props ''id'' = Some (JObj [(''type'', JStr ''boolean'')])"
proof -
  have h1: "JNull \<notin> set example_params" by (simp add: example_params_def)
  have h2: "\<forall>p\<in>set example_params. location_key p \<noteq> ''__proto__''" by code_simp
  from parseParameters_groups_by_location [OF h1 h2] obtain out
    where out: "parseParameters (Some (JArr example_params)) = Inr out" "grouped example_params out"
    by blast
  have k: "''params'' \<in> location_key ` set example_params" by code_simp
  from out(2) k obtain props
    where props: "map_of out ''params'' =
                    Some (JObj [(''type'', JStr ''object''), (''properties'', JObj props)])"
                 "\<forall>n. map_of props n = last_schema example_params ''params'' n"
    unfolding grouped_def by blast
  have "last_schema example_params ''params'' ''id'' = Some (JObj [(''type'', JStr ''boolean'')])"
    by code_simp
  with out(1) props show ?thesis by auto
qed

section \<open>Properties of the schema filters\<close>

text \<open>
  Claim C5 (\<open>filterReadOnlyProperties\<close> removes the read-only properties and prunes the
  required list, succeeding also when the schema has no required list).  On the schema
  \<^verbatim>\<open>{type: 'object', properties: {a: {readOnly: true}, b: {}}}\<close>, which has no required
  list, the filter ends in a TypeError: it calls \<^verbatim>\<open>filter\<close> on the missing list.  Its
  sibling \<open>filterWriteOnlyProperties\<close> tests the list first and succeeds on the
  corresponding schema.  With a required list, and on the empty schema, the filter does
  what the claim says.
\<close>

theorem filterReadOnly_needs_required_list:
  "filterReadOnlyProperties
     (Some (JObj [(''type'', JStr ''object''),
                  (''properties'', JObj [(''a'', JObj [(''readOnly'', JBool True)]), (''b'', JObj [])])]))
     = Inl TypeError
   \<and> filterWriteOnlyProperties
     (Some (JObj [(''type'', JStr ''object''),
                  (''properties'', JObj [(''a'', JObj [(''writeOnly'', JBool True)]), (''b'', JObj [])])]))
     = Inr (JObj [(''type'', JStr ''object''), (''properties'', JObj [(''b'', JObj [])])])
   \<and> filterReadOnlyProperties
     (Some (JObj [(''properties'', JObj [(''a'', JObj [(''readOnly'', JBool True)]), (''b'', JObj [])]),
                  (''required'', JArr [JStr ''a'', JStr ''b''])]))
     = Inr (JObj [(''properties'', JObj [(''b'', JObj [])]), (''required'', JArr [JStr ''b''])])
   \<and> filterReadOnlyProperties (Some (JObj [])) = Inr (JObj [])"
  by code_simp

lemma andThen_simps: "andThen (Inr x) f = f x" "andThen (Inl e) f = Inl e"
  by (simp_all add: andThen_def)

lemma obj_set_named:
  "\<not> is_array_index k \<Longrightarrow> obj_set kvs k v = AList.update k v kvs"
  by (simp add: obj_set_def)

lemma not_index_names:
  "\<not> is_array_index ''properties''" "\<not> is_array_index ''required''" "\<not> is_array_index ''items''"
  by (simp_all add: is_array_index_def is_digit_def code_unit_def)

lemma filterE_flag:
  assumes d: "distinct (map fst props)" and n: "JNull \<notin> snd ` set props" and q: "set qs \<subseteq> set props"
  shows "filterE (\<lambda>propertyKey.
            andThen (read_prop (Some (JObj props)) propertyKey) (\<lambda>p.
            andThen (read_prop p flag) (\<lambda>f. Inr (\<not> truthy f)))) (map fst qs)
         = Inr (map fst (without_flagged flag qs))"
  using q
proof (induction qs)
  case Nil
  then show ?case by (simp add: without_flagged_def)
next
  case (Cons p qs)
  obtain k v where p: "p = (k, v)" by (cases p)
  with Cons.prems have mem: "(k, v) \<in> set props" by simp
  with d have look: "map_of props k = Some v" by simp
  from mem n have "v \<noteq> JNull" by force
  then have "read_prop (Some v) flag = Inr (get_prop v flag)"
    by (cases v) (simp_all add: read_prop_def)
  with look have step: "andThen (read_prop (Some (JObj props)) k) (\<lambda>p.
            andThen (read_prop p flag) (\<lambda>f. Inr (\<not> truthy f))) = Inr (\<not> truthy (get_prop v flag))"
    by (simp add: andThen_def read_prop_def get_prop_def)
  from Cons have "filterE (\<lambda>propertyKey.
            andThen (read_prop (Some (JObj props)) propertyKey) (\<lambda>p.
            andThen (read_prop p flag) (\<lambda>f. Inr (\<not> truthy f)))) (map fst qs)
         = Inr (map fst (without_flagged flag qs))" by simp
  with step p show ?case
    by (simp add: without_flagged_def)
qed

lemma pick_properties_sublist:
  assumes d: "distinct (map fst props)" and q: "set qs \<subseteq> set props"
  shows "fold (\<lambda>k acc. case map_of (spread (Some (JObj props))) k of None \<Rightarrow> acc
                        | Some v \<Rightarrow> obj_set acc k v) (map fst qs) acc
         = spread_over acc qs"
  using q
proof (induction qs arbitrary: acc)
  case Nil
  then show ?case by (simp add: spread_over_def)
next
  case (Cons p qs)
  obtain k v where p: "p = (k, v)" by (cases p)
  with Cons.prems d have "map_of props k = Some v" by simp
  with Cons p show ?case
    by (simp add: spread_over_def spread_def)
qed

lemma pick_properties_kept:
  assumes "js_object props"
  shows "pick_properties (Some (JObj props)) (map fst (without_flagged flag props))
         = without_flagged flag props"
proof -
  from assms have d: "distinct (map fst props)" by (simp add: js_object_def)
  have sub: "set (without_flagged flag props) \<subseteq> set props"
    by (auto simp: without_flagged_def)
  have "js_object (without_flagged flag props)"
    unfolding without_flagged_def using assms by (rule js_object_filter)
  then have "spread_over [] (without_flagged flag props) = without_flagged flag props"
    by (rule spread_over_js_object)
  with pick_properties_sublist [OF d sub, of "[]"] show ?thesis
    by (simp add: pick_properties_def)
qed

lemma filter_required_pruned:
  "filter_required (Some (JArr rs)) (map fst kept) = Inr (pruned_required kept rs)"
proof -
  have "(case x of JStr s \<Rightarrow> s \<in> fst ` set kept | _ \<Rightarrow> False) = (x \<in> JStr ` fst ` set kept)" for x
    by (cases x) auto
  then have "filter (\<lambda>x. case x of JStr s \<Rightarrow> s \<in> fst ` set kept | _ \<Rightarrow> False) rs =
             filter (\<lambda>r. r \<in> JStr ` fst ` set kept) rs"
    by (intro filter_cong) auto
  then show ?thesis
    unfolding filter_required_def pruned_required_def by simp
qed

text \<open>
  Claim C6: for every schema of type \<^verbatim>\<open>array\<close> whose \<^verbatim>\<open>items\<close> is an object with a
  property map (a well-formed object without null values) and with a required list that
  is an array, missing or falsy, \<open>filterWriteOnlyProperties\<close> returns the schema with
  \<^verbatim>\<open>items\<close> replaced in place: \<^verbatim>\<open>items.properties\<close> without the properties that carry
  \<^verbatim>\<open>writeOnly\<close>, \<^verbatim>\<open>items.required\<close> (when present) pruned to the names that are kept.
  Every other key of the schema and of \<^verbatim>\<open>items\<close> is as before; the top-level
  \<^verbatim>\<open>properties\<close> and \<^verbatim>\<open>required\<close> are not touched.
\<close>

theorem filterWriteOnly_array_items:
  assumes ty: "map_of kvs ''type'' = Some (JStr ''array'')"
    and items: "map_of kvs ''items'' = Some (JObj items)"
    and props: "map_of items ''properties'' = Some (JObj props)"
    and wf: "wf_json (JObj props)"
    and nonnull: "JNull \<notin> snd ` set props"
    and req: "truthy (map_of items ''required'') = False \<or>
              (\<exists>rs. map_of items ''required'' = Some (JArr rs))"
  shows "filterWriteOnlyProperties (Some (JObj kvs)) =
           Inr (JObj (AList.update ''items'' (JObj (filtered_items ''writeOnly'' items props)) kvs))"
proof -
  let ?kept = "without_flagged ''writeOnly'' props"
  from wf have js: "js_object props" by simp
  then have d: "distinct (map fst props)" by (simp add: js_object_def)
  from ty have ne: "map fst kvs \<noteq> []" by auto
  have keys: "object_keys (Some (JObj kvs)) = Inr (map fst kvs)"
    by (simp add: object_keys_def)
  have sel: "select_properties (Some (JObj kvs)) = Inr (Some (JObj props), map_of items ''required'')"
    using ty items props
    by (simp add: select_properties_def andThen_def read_prop_def get_prop_def)
  have clone: "JSON_clone (Some (JObj props)) = Inr (JObj props)"
    using JSON_roundtrip [OF wf] by (simp add: JSON_clone_def)
  have pkeys: "object_keys (Some (JObj props)) = Inr (map fst props)"
    by (simp add: object_keys_def)
  have flt: "filterE (\<lambda>propertyKey.
            andThen (read_prop (Some (JObj props)) propertyKey) (\<lambda>p.
            andThen (read_prop p ''writeOnly'') (\<lambda>f. Inr (\<not> truthy f)))) (map fst props)
         = Inr (map fst ?kept)"
    by (rule filterE_flag [OF d nonnull]) simp
  have pick: "pick_properties (Some (JObj props)) (map fst ?kept) = ?kept"
    by (rule pick_properties_kept [OF js])
  have store: "store_filtered (Some (JObj kvs)) (JObj ?kept) r =
                 Inr (JObj (AList.update ''items''
                   (JObj (case r of None \<Rightarrow> AList.update ''properties'' (JObj ?kept) items
                          | Some x \<Rightarrow> AList.update ''required'' x
                                       (AList.update ''properties'' (JObj ?kept) items))) kvs))" for r
    using ty items
    by (simp add: store_filtered_def spread_def Let_def obj_set_named not_index_names
        split: option.splits)
  from req show ?thesis
  proof
    assume falsy: "truthy (map_of items ''required'') = False"
    then have "\<nexists>rs. map_of items ''required'' = Some (JArr rs)"
      by (auto simp: truthy_def)
    then have "filtered_items ''writeOnly'' items props =
                 AList.update ''properties'' (JObj ?kept) items"
      by (auto simp: filtered_items_def Let_def split: option.splits json.splits)
    with falsy show ?thesis
      using ne
      by (simp add: filterWriteOnlyProperties_def keys sel clone pkeys flt pick store andThen_simps)
  next
    assume "\<exists>rs. map_of items ''required'' = Some (JArr rs)"
    then obtain rs where rs: "map_of items ''required'' = Some (JArr rs)" by blast
    then have "truthy (map_of items ''required'')" by (simp add: truthy_def)
    with rs show ?thesis
      using ne
      by (simp add: filterWriteOnlyProperties_def keys sel clone pkeys flt pick store andThen_simps
          filtered_items_def Let_def filter_required_pruned)
  qed
qed

text \<open>
  Witness for C6: the schema
  \<^verbatim>\<open>{type: 'array', items: {properties: {secret: {writeOnly: true}}, required: ['secret']}}\<close>.
\<close>

theorem filterWriteOnly_array_items_witness:
  "filterWriteOnlyProperties
     (Some (JObj [(''type'', JStr ''array''),
                  (''items'', JObj [(''properties'', JObj [(''secret'', JObj [(''writeOnly'', JBool True)])]),
                                    (''required'', JArr [JStr ''secret''])])]))
   = Inr (JObj [(''type'', JStr ''array''),
                (''items'', JObj [(''properties'', JObj []), (''required'', JArr [])])])"
proof -
  let ?props = "[(''secret'', JObj [(''writeOnly'', JBool True)])]"
  let ?items = "[(''properties'', JObj ?props), (''required'', JArr [JStr ''secret''])]"
  let ?kvs = "[(''type'', JStr ''array''), (''items'', JObj ?items)]"
  have ty: "map_of ?kvs ''type'' = Some (JStr ''array'')" by simp
  have items: "map_of ?kvs ''items'' = Some (JObj ?items)" by simp
  have props: "map_of ?items ''properties'' = Some (JObj ?props)" by simp
  have wf: "wf_json (JObj ?props)" by code_simp
  have nonnull: "JNull \<notin> snd ` set ?props" by simp
  have req: "truthy (map_of ?items ''required'') = False \<or>
             (\<exists>rs. map_of ?items ''required'' = Some (JArr rs))"
    by simp
  have v: "AList.update ''items'' (JObj (filtered_items ''writeOnly'' ?items ?props)) ?kvs =
           [(''type'', JStr ''array''),
            (''items'', JObj [(''properties'', JObj []), (''required'', JArr [])])]"
    by code_simp
  from filterWriteOnly_array_items [OF ty items props wf nonnull req] v show ?thesis by simp
qed

text \<open>
  Claim C7 as stated (filtering a non-empty schema without \<^verbatim>\<open>properties\<close> fails with a
  MalformedSchemaError that names the offending path, method, operation or reference)
  fails: for a JSON request body with schema \<^verbatim>\<open>{type: 'string'}\<close> the failure is the
  SyntaxError of \<^verbatim>\<open>JSON.parse\<close>, which carries no such name.
\<close>

theorem malformed_schema_counterexample:
  "parseRequestBody
     (Some (JObj [(''content'',
        JObj [(''application/json'', JObj [(''schema'', JObj [(''type'', JStr ''string'')])])])]))
     = Inl SyntaxError
   \<and> parseRequestBody
     (Some (JObj [(''content'',
        JObj [(''application/json'', JObj [(''schema'', JObj [(''type'', JStr ''string'')])])])]))
     \<noteq> Inl MalformedSchemaError"
  by code_simp

text \<open>
  Claim C7, amended: whenever a filter is applied to a non-empty schema object that
  lacks \<^verbatim>\<open>properties\<close> (or, for type \<^verbatim>\<open>array\<close>, whose \<^verbatim>\<open>items\<close> object lacks
  \<^verbatim>\<open>properties\<close>), the filter fails with the SyntaxError of \<^verbatim>\<open>JSON.parse\<close>, and so does
  \<open>parseRequestBody\<close> for a JSON request body with such a schema; for type \<^verbatim>\<open>array\<close>
  without \<^verbatim>\<open>items\<close> the failure is a TypeError.  These are the errors of the runtime;
  they name no path, method, operation or reference.
\<close>

theorem filter_without_properties_low_level_error:
  assumes "kvs \<noteq> []"
  shows "(map_of kvs ''type'' \<noteq> Some (JStr ''array'') \<and> map_of kvs ''properties'' = None \<longrightarrow>
            filterReadOnlyProperties (Some (JObj kvs)) = Inl SyntaxError \<and>
            filterWriteOnlyProperties (Some (JObj kvs)) = Inl SyntaxError \<and>
            parseRequestBody
              (Some (JObj [(''content'', JObj [(''application/json'', JObj [(''schema'', JObj kvs)])])]))
              = Inl SyntaxError)
         \<and> (map_of kvs ''type'' = Some (JStr ''array'') \<and>
              map_of kvs ''items'' = Some (JObj items) \<and> map_of items ''properties'' = None \<longrightarrow>
            filterReadOnlyProperties (Some (JObj kvs)) = Inl SyntaxError \<and>
            filterWriteOnlyProperties (Some (JObj kvs)) = Inl SyntaxError)
         \<and> (map_of kvs ''type'' = Some (JStr ''array'') \<and> map_of kvs ''items'' = None \<longrightarrow>
            filterReadOnlyProperties (Some (JObj kvs)) = Inl TypeError \<and>
            filterWriteOnlyProperties (Some (JObj kvs)) = Inl TypeError)"
  using assms
  by (auto simp: filterReadOnlyProperties_def filterWriteOnlyProperties_def parseRequestBody_def
      select_properties_def object_keys_def read_prop_def get_prop_def andThen_def JSON_clone_def
      truthy_def Let_def)

text \<open>
  Witness for C7: the schemas \<^verbatim>\<open>{type: 'string'}\<close>,
  \<^verbatim>\<open>{type: 'array', items: {type: 'string'}}\<close> and \<^verbatim>\<open>{type: 'array'}\<close>.
\<close>

theorem filter_without_properties_low_level_error_witness:
  "filterReadOnlyProperties (Some (JObj [(''type'', JStr ''string'')])) = Inl SyntaxError \<and>
   filterWriteOnlyProperties (Some (JObj [(''type'', JStr ''string'')])) = Inl SyntaxError \<and>
   filterWriteOnlyProperties
     (Some (JObj [(''type'', JStr ''array''), (''items'', JObj [(''type'', JStr ''string'')])]))
     = Inl SyntaxError \<and>
   filterReadOnlyProperties (Some (JObj [(''type'', JStr ''array'')])) = Inl TypeError"
proof -
  have n1: "[(''type'', JStr ''string'')] \<noteq> []" by simp
  have n2: "[(''type'', JStr ''array''), (''items'', JObj [(''type'', JStr ''string'')])] \<noteq> []" by simp
  have n3: "[(''type'', JStr ''array'')] \<noteq> []" by simp
  from filter_without_properties_low_level_error [OF n1, of "[]"]
  have a: "filterReadOnlyProperties (Some (JObj [(''type'', JStr ''string'')])) = Inl SyntaxError"
      "filterWriteOnlyProperties (Some (JObj [(''type'', JStr ''string'')])) = Inl SyntaxError"
    by simp_all
  from filter_without_properties_low_level_error [OF n2, of "[(''type'', JStr ''string'')]"]
  have b: "filterWriteOnlyProperties
     (Some (JObj [(''type'', JStr ''array''), (''items'', JObj [(''type'', JStr ''string'')])]))
     = Inl SyntaxError"
    by simp
  from filter_without_properties_low_level_error [OF n3, of "[]"]
  have c: "filterReadOnlyProperties (Some (JObj [(''type'', JStr ''array'')])) = Inl TypeError"
    by simp
  from a b c show ?thesis by simp
qed

section \<open>Properties of the method compiler\<close>

lemma parseRequestBody_keys:
  "parseRequestBody rb = Inr body \<Longrightarrow> fst ` set body \<subseteq> {''body''}"
  by (auto simp: parseRequestBody_def Let_def andThen_Inr_iff split: if_splits)

lemma parseResponses_keys:
  "parseResponses rs = Inr response \<Longrightarrow> fst ` set response \<subseteq> {''response''}"
  by (auto simp: parseResponses_def andThen_Inr_iff split: if_splits)

lemma parseMethod_InrD:
  assumes "parseMethod item handlers globalParameters m = Inr r"
  shows "\<exists>operation rawId operationId h lp allParameters params rb body rsp response.
           read_prop item m = Inr operation \<and>
           read_prop operation ''operationId'' = Inr rawId \<and>
           createCamelCaseFromStr rawId = Inr operationId \<and>
           handlers operationId = Some h \<and>
           read_prop operation ''parameters'' = Inr lp \<and>
           concat_parameters (or_empty_array lp) globalParameters = Inr allParameters \<and>
           parseParameters (Some allParameters) = Inr params \<and>
           read_prop operation ''requestBody'' = Inr rb \<and>
           parseRequestBody rb = Inr body \<and>
           read_prop operation ''responses'' = Inr rsp \<and>
           parseResponses rsp = Inr response \<and>
           r = \<lparr>http_method = toUpperCase m,
                schema = spread_over (spread_over params body) response,
                handler = h\<rparr>"
  using assms
  by (auto simp: parseMethod_def andThen_Inr_iff split: option.splits)

lemma parseMethod_schema:
  assumes r: "parseMethod item handlers (JArr shared) m = Inr r"
      and op: "read_prop item m = Inr operation"
      and own: "read_prop operation ''parameters'' = Inr (Some (JArr own))"
      and k: "k \<noteq> ''body''" "k \<noteq> ''response''"
  shows "\<exists>params. parseParameters (Some (JArr (own @ shared))) = Inr params \<and>
           map_of (schema r) k = map_of params k"
proof -
  from parseMethod_InrD [OF r] op own obtain allParameters params rb body rsp response
    where c: "concat_parameters (or_empty_array (Some (JArr own))) (JArr shared) = Inr allParameters"
      and p: "parseParameters (Some allParameters) = Inr params"
      and bd: "parseRequestBody rb = Inr body"
      and rs: "parseResponses rsp = Inr response"
      and sch: "schema r = spread_over (spread_over params body) response"
    by auto
  from c have all: "allParameters = JArr (own @ shared)"
    by (simp add: concat_parameters_def or_empty_array_def truthy_def)
  from parseRequestBody_keys [OF bd] k have kb: "k \<notin> fst ` set body" by auto
  from parseResponses_keys [OF rs] k have kr: "k \<notin> fst ` set response" by auto
  from kb kr sch have "map_of (schema r) k = map_of params k"
    by (simp add: map_of_spread_over_other)
  with p all show ?thesis by blast
qed

lemma parseMethods_eq:
  "item \<noteq> JNull \<Longrightarrow>
   parseMethods (Some item) handlers =
     mapE (parseMethod (Some item) handlers (or_empty_array (get_prop item ''parameters'')))
       (path_verbs item)"
  by (cases item) (simp_all add: parseMethods_def andThen_def read_prop_def object_keys_def path_verbs_def)

lemma createCamelCaseFromStr_Inr:
  "createCamelCaseFromStr x = Inr k \<longleftrightarrow> (\<exists>s. x = Some (JStr s) \<and> k = lower_first s)"
  by (auto simp: createCamelCaseFromStr_def lower_first_def split: option.splits json.splits)

lemma parseMethod_missing_handler:
  assumes "get_prop item m = Some operation" "get_prop operation ''operationId'' = Some (JStr s)"
    and "handlers (lower_first s) = None"
  shows "parseMethod (Some item) handlers g m = Inl (MissingHandlerError (lower_first s))"
proof -
  from assms(1) have "item \<noteq> JNull" by (auto simp: get_prop_def)
  moreover from assms(2) have "operation \<noteq> JNull" by (auto simp: get_prop_def)
  ultimately show ?thesis
    using assms
    by (cases item; cases operation)
       (simp_all add: parseMethod_def andThen_def read_prop_def createCamelCaseFromStr_def
         lower_first_def)
qed

text \<open>
  Claim C4: for every path item and every recognised verb on it, in the order of its
  keys.  When \<open>parseMethods\<close> returns, it returns one route per verb; the operationId of
  the verb's operation is a string, the handler of the route is the callable the
  registry holds under that string with its first character in lower case, and its
  HTTP method is the verb in upper case.  When the registry has no callable under that key,
  \<open>parseMethods\<close> returns no route list at all; the failure is the MissingHandlerError
  naming that key, provided the verbs in front of it compile.
\<close>

theorem parseMethods_binds_handlers:
  assumes item: "item \<noteq> JNull"
  shows "(\<forall>routes. parseMethods (Some item) handlers = Inr routes \<longrightarrow>
            length routes = length (path_verbs item) \<and>
            (\<forall>i<length (path_verbs item).
               \<exists>operation s.
                 get_prop item (path_verbs item ! i) = Some operation \<and>
                 get_prop operation ''operationId'' = Some (JStr s) \<and>
                 handlers (lower_first s) = Some (handler (routes ! i)) \<and>
                 http_method (routes ! i) = toUpperCase (path_verbs item ! i)))
         \<and>
         (\<forall>i<length (path_verbs item). \<forall>operation s.
            get_prop item (path_verbs item ! i) = Some operation \<and>
            get_prop operation ''operationId'' = Some (JStr s) \<and>
            handlers (lower_first s) = None \<longrightarrow>
              (\<exists>e. parseMethods (Some item) handlers = Inl e) \<and>
              ((\<forall>j<i. \<exists>r. parseMethod (Some item) handlers
                              (or_empty_array (get_prop item ''parameters''))
                              (path_verbs item ! j) = Inr r) \<longrightarrow>
               parseMethods (Some item) handlers = Inl (MissingHandlerError (lower_first s))))"
proof (intro conjI allI impI)
  fix routes assume ok: "parseMethods (Some item) handlers = Inr routes"
  let ?f = "parseMethod (Some item) handlers (or_empty_array (get_prop item ''parameters''))"
  from ok item have m: "mapE ?f (path_verbs item) = Inr routes"
    by (simp add: parseMethods_eq)
  from mapE_Inr_nth [OF m] show "length routes = length (path_verbs item)" by simp
  fix i assume i: "i < length (path_verbs item)"
  with mapE_Inr_nth [OF m] have r: "?f (path_verbs item ! i) = Inr (routes ! i)" by simp
  from parseMethod_InrD [OF r] obtain operation rawId operationId h
    where op: "read_prop (Some item) (path_verbs item ! i) = Inr operation"
      and raw: "read_prop operation ''operationId'' = Inr rawId"
      and cc: "createCamelCaseFromStr rawId = Inr operationId"
      and h: "handlers operationId = Some h"
      and hr: "handler (routes ! i) = h" "http_method (routes ! i) = toUpperCase (path_verbs item ! i)"
    by auto
  from raw obtain opv where opv: "operation = Some opv" "rawId = get_prop opv ''operationId''"
    by (auto dest: read_prop_Inr)
  from op opv have g: "get_prop item (path_verbs item ! i) = Some opv"
    by (auto dest: read_prop_Some_Inr)
  from cc obtain s where s: "rawId = Some (JStr s)" "operationId = lower_first s"
    by (auto simp: createCamelCaseFromStr_Inr)
  from s opv have oid: "get_prop opv ''operationId'' = Some (JStr s)" by simp
  from h hr s have hh: "handlers (lower_first s) = Some (handler (routes ! i))" by simp
  from g oid hh hr(2)
  show "\<exists>operation s.
           get_prop item (path_verbs item ! i) = Some operation \<and>
           get_prop operation ''operationId'' = Some (JStr s) \<and>
           handlers (lower_first s) = Some (handler (routes ! i)) \<and>
           http_method (routes ! i) = toUpperCase (path_verbs item ! i)"
    by blast
next
  fix i operation s
  assume i: "i < length (path_verbs item)"
    and a: "get_prop item (path_verbs item ! i) = Some operation \<and>
            get_prop operation ''operationId'' = Some (JStr s) \<and> handlers (lower_first s) = None"
  let ?f = "parseMethod (Some item) handlers (or_empty_array (get_prop item ''parameters''))"
  from a have fail: "?f (path_verbs item ! i) = Inl (MissingHandlerError (lower_first s))"
    by (intro parseMethod_missing_handler) auto
  from mapE_some_failure [of i "path_verbs item" ?f, OF i fail] item
  show "\<exists>e. parseMethods (Some item) handlers = Inl e"
    by (simp add: parseMethods_eq)
  assume "\<forall>j<i. \<exists>r. ?f (path_verbs item ! j) = Inr r"
  from mapE_first_failure [of i "path_verbs item" ?f, OF i fail this] item
  show "parseMethods (Some item) handlers = Inl (MissingHandlerError (lower_first s))"
    by (simp add: parseMethods_eq)
qed

text \<open>
  Witness for C4: the example item with handlers for both operations, and with a
  handler for \<^verbatim>\<open>get\<close> only.
\<close>

theorem parseMethods_binds_handlers_witness:
  "(\<exists>routes. parseMethods (Some example_item) example_handlers = Inr routes \<and>
      length routes = 2 \<and>
      http_method (routes ! 0) = ''GET'' \<and> handler (routes ! 0) = 1 \<and>
      http_method (routes ! 1) = ''POST'' \<and> handler (routes ! 1) = 2) \<and>
   parseMethods (Some example_item) get_only = Inl (MissingHandlerError ''addDocument'')"
proof -
  have h: "example_item \<noteq> JNull" by (simp add: example_item_def)
  have verbs: "path_verbs example_item = [''get'', ''post'']" by code_simp
  have ok: "parseMethods (Some example_item) example_handlers =
              Inr [\<lparr>http_method = ''GET'',
                    schema = [(''params'', JObj [(''type'', JStr ''object''),
                       (''properties'', JObj [(''id'', JObj [(''type'', JStr ''integer'')])])])],
                    handler = 1\<rparr>,
                   \<lparr>http_method = ''POST'',
                    schema = [(''params'', JObj [(''type'', JStr ''object''),
                       (''properties'', JObj [(''id'', JObj [(''type'', JStr ''integer'')])])])],
                    handler = 2\<rparr>]"
    by code_simp
  note t = parseMethods_binds_handlers [OF h]
  have i: "1 < length (path_verbs example_item)" using verbs by simp
  have op: "get_prop example_item (path_verbs example_item ! 1) =
              Some (JObj [(''operationId'', JStr ''AddDocument''), (''responses'', JObj [])])"
    unfolding verbs by code_simp
  have oid: "get_prop (JObj [(''operationId'', JStr ''AddDocument''), (''responses'', JObj [])])
               ''operationId'' = Some (JStr ''AddDocument'')"
    by code_simp
  have lf: "lower_first ''AddDocument'' = ''addDocument''" by code_simp
  have none: "get_only (lower_first ''AddDocument'') = None" unfolding lf by code_simp
  have before: "\<forall>j<1. \<exists>r. parseMethod (Some example_item) get_only
                  (or_empty_array (get_prop example_item ''parameters''))
                  (path_verbs example_item ! j) = Inr r"
  proof (intro allI impI)
    fix j :: nat assume "j < 1"
    then have j: "j = 0" by simp
    have "parseMethod (Some example_item) get_only
            (or_empty_array (get_prop example_item ''parameters'')) ''get'' =
          Inr \<lparr>http_method = ''GET'',
               schema = [(''params'', JObj [(''type'', JStr ''object''),
                  (''properties'', JObj [(''id'', JObj [(''type'', JStr ''integer'')])])])],
               handler = 1\<rparr>"
      by code_simp
    with j verbs show "\<exists>r. parseMethod (Some example_item) get_only
                  (or_empty_array (get_prop example_item ''parameters''))
                  (path_verbs example_item ! j) = Inr r"
      by simp
  qed
  from t [of get_only, THEN conjunct2, rule_format, OF i, of _ "''AddDocument''"] op oid none before
  have "parseMethods (Some example_item) get_only = Inl (MissingHandlerError (lower_first ''AddDocument''))"
    by blast
  with lf have miss: "parseMethods (Some example_item) get_only = Inl (MissingHandlerError ''addDocument'')"
    by simp
  from ok miss show ?thesis by simp
qed

text \<open>
  Claim C10: a path item with shared parameters, one of its verbs whose operation has
  own parameters, and a shared parameter \<open>g\<close> that has the location and the name of an
  own parameter \<open>p\<close> (\<open>g\<close> being the last shared parameter with both).  The own
  parameters are concatenated in front of the shared ones, and in the route of that verb
  the location's \<^verbatim>\<open>properties\<close> hold the copy of the schema of \<open>g\<close> under that name:
  the shared parameter wins.
\<close>

theorem shared_parameter_overrides_operation_parameter:
  assumes ok: "parseMethods (Some item) handlers = Inr routes"
    and shared: "get_prop item ''parameters'' = Some (JArr shared)"
    and i: "i < length (path_verbs item)"
    and op: "get_prop item (path_verbs item ! i) = Some operation"
    and own: "get_prop operation ''parameters'' = Some (JArr own)"
    and p: "p \<in> set own" "location_key p = k" "name_key p = n"
    and g: "find (\<lambda>q. location_key q = k \<and> name_key q = n) (rev shared) = Some g"
    and k: "k \<noteq> ''body''" "k \<noteq> ''response''"
    and proto: "\<forall>q\<in>set (own @ shared). location_key q \<noteq> ''__proto__''"
  shows "concat_parameters (JArr own) (JArr shared) = Inr (JArr (own @ shared)) \<and>
         (\<exists>props. map_of (schema (routes ! i)) k =
                     Some (JObj [(''type'', JStr ''object''), (''properties'', JObj props)]) \<and>
                   map_of props n = Some (JObj (spread (get_prop g ''schema''))))"
proof
  show "concat_parameters (JArr own) (JArr shared) = Inr (JArr (own @ shared))"
    by (simp add: concat_parameters_def)
next
  from shared have item: "item \<noteq> JNull" by (auto simp: get_prop_def)
  from own have opn: "operation \<noteq> JNull" by (auto simp: get_prop_def)
  let ?f = "parseMethod (Some item) handlers (or_empty_array (get_prop item ''parameters''))"
  from ok item have m: "mapE ?f (path_verbs item) = Inr routes"
    by (simp add: parseMethods_eq)
  with i mapE_Inr_nth [OF m] have r: "?f (path_verbs item ! i) = Inr (routes ! i)" by simp
  have g0: "or_empty_array (get_prop item ''parameters'') = JArr shared"
    using shared by (simp add: or_empty_array_def truthy_def)
  have rp: "read_prop (Some item) (path_verbs item ! i) = Inr (Some operation)"
    using item op by (cases item) (simp_all add: read_prop_def)
  have ro: "read_prop (Some operation) ''parameters'' = Inr (Some (JArr own))"
    using opn own by (cases operation) (simp_all add: read_prop_def)
  from parseMethod_schema [OF r [unfolded g0] rp ro k]
  obtain params where params: "parseParameters (Some (JArr (own @ shared))) = Inr params"
    "map_of (schema (routes ! i)) k = map_of params k" by blast
  from parseParameters_Inr_grouped [OF params(1)] have gr: "grouped (own @ shared) params" .
  from find_SomeD [OF g] have gs: "g \<in> set shared" "location_key g = k" "name_key g = n"
    by auto
  then have "k \<in> location_key ` set (own @ shared)" by auto
  with gr obtain props where props:
    "map_of params k = Some (JObj [(''type'', JStr ''object''), (''properties'', JObj props)])"
    "\<forall>n. map_of props n = last_schema (own @ shared) k n"
    unfolding grouped_def by blast
  have "last_schema (own @ shared) k n = Some (schema_copy g)"
    using g by (simp add: last_schema_append) (simp add: last_schema_def)
  with props params(2)
  show "\<exists>props. map_of (schema (routes ! i)) k =
                  Some (JObj [(''type'', JStr ''object''), (''properties'', JObj props)]) \<and>
                map_of props n = Some (JObj (spread (get_prop g ''schema'')))"
    by (auto simp: schema_copy_def)
qed

text \<open>
  Witness for C10: in the example item the shared \<^verbatim>\<open>id\<close> is an integer and the own
  \<^verbatim>\<open>id\<close> of \<^verbatim>\<open>get\<close> a string; the route has the integer.
\<close>

theorem shared_parameter_overrides_operation_parameter_witness:
  "\<exists>routes props.
     parseMethods (Some example_item) example_handlers = Inr routes \<and>
     map_of (schema (routes ! 0)) ''params'' =
       Some (JObj [(''type'', JStr ''object''), (''properties'', JObj props)]) \<and>
     map_of props ''id'' = Some (JObj [(''type'', JStr ''integer'')])"
proof -
  let ?shared = "[JObj [(''in'', JStr ''path''), (''name'', JStr ''id''),
                        (''schema'', JObj [(''type'', JStr ''integer'')])]]"
  let ?own = "[JObj [(''in'', JStr ''path''), (''name'', JStr ''id''),
                     (''schema'', JObj [(''type'', JStr ''string'')])]]"
  let ?operation = "JObj [(''operationId'', JStr ''GetDocument''),
                    (''parameters'', JArr ?own), (''responses'', JObj [])]"
  let ?routes = "[\<lparr>http_method = ''GET'',
                    schema = [(''params'', JObj [(''type'', JStr ''object''),
                       (''properties'', JObj [(''id'', JObj [(''type'', JStr ''integer'')])])])],
                    handler = (1::nat)\<rparr>,
                   \<lparr>http_method = ''POST'',
                    schema = [(''params'', JObj [(''type'', JStr ''object''),
                       (''properties'', JObj [(''id'', JObj [(''type'', JStr ''integer'')])])])],
                    handler = 2\<rparr>]"
  have ok: "parseMethods (Some example_item) example_handlers = Inr ?routes"
    by code_simp
  have shared: "get_prop example_item ''parameters'' = Some (JArr ?shared)" by code_simp
  have verbs: "path_verbs example_item = [''get'', ''post'']" by code_simp
  have i: "0 < length (path_verbs example_item)" unfolding verbs by simp
  have op: "get_prop example_item (path_verbs example_item ! 0) = Some ?operation"
    unfolding verbs by code_simp
  have own: "get_prop ?operation ''parameters'' = Some (JArr ?own)" by code_simp
  have p: "hd ?own \<in> set ?own" by simp
  have pk: "location_key (hd ?own) = ''params''" by code_simp
  have pn: "name_key (hd ?own) = ''id''" by code_simp
  have g: "find (\<lambda>q. location_key q = ''params'' \<and> name_key q = ''id'') (rev ?shared) = Some (hd ?shared)"
    by code_simp
  have k: "''params'' \<noteq> ''body''" "''params'' \<noteq> ''response''" by simp_all
  have proto: "\<forall>q\<in>set (?own @ ?shared). location_key q \<noteq> ''__proto__''" by code_simp
  from shared_parameter_overrides_operation_parameter [OF ok shared i op own p pk pn g k proto]
  obtain props where
    "map_of (schema (?routes ! 0)) ''params'' =
       Some (JObj [(''type'', JStr ''object''), (''properties'', JObj props)])"
    "map_of props ''id'' = Some (JObj (spread (get_prop (hd ?shared) ''schema'')))"
    by blast
  moreover have "JObj (spread (get_prop (hd ?shared) ''schema'')) = JObj [(''type'', JStr ''integer'')]"
    by code_simp
  ultimately show ?thesis using ok by auto
qed

section \<open>Properties of the route compiler\<close>




end
